theory Spec2Isabelle
  imports Complex_Main "HOL-Library.Word"
begin

text \<open>
  The browser front end of the stock analysis platform: \<open>config.js\<close> (the address of the
  backend) and the class \<open>FinGeniusApp\<close> of \<open>app-improved.js\<close> (validation of the stock
  code, the handlers of the WebSocket messages, the progress of the agents, the barrier
  of the two completion messages, the watchdog of the report phase, the offline
  substitute). Methods become functions from state to state under their own names; the
  browser's part (timers, clock, socket, user) is a sequence of events.
\<close>

section \<open>JavaScript strings\<close>

text \<open>
  A JavaScript string is a sequence of UTF-16 code units. ASCII literals of the sources
  are written \<open>js ''...''\<close>; text outside ASCII is written as its code units.
\<close>

type_synonym jschar = "16 word"
type_synonym jsstring = "jschar list"

definition js :: "string \<Rightarrow> jsstring" where
  "js s = map of_char s"

definition startsWith :: "jsstring \<Rightarrow> jsstring \<Rightarrow> bool" where
  "startsWith s p = (take (length p) s = p)"

text \<open>
  \<open>String.prototype.trim\<close> removes WhiteSpace and LineTerminator code points from both
  ends: TAB, LF, VT, FF, CR, SP, NBSP, the Unicode space separators, LS, PS and the BOM.
\<close>

definition is_js_space :: "jschar \<Rightarrow> bool" where
  "is_js_space c =
     (c = 0x09 \<or> c = 0x0A \<or> c = 0x0B \<or> c = 0x0C \<or> c = 0x0D \<or> c = 0x20 \<or> c = 0xA0
      \<or> c = 0x1680 \<or> (0x2000 \<le> c \<and> c \<le> 0x200A) \<or> c = 0x2028 \<or> c = 0x2029
      \<or> c = 0x202F \<or> c = 0x205F \<or> c = 0x3000 \<or> c = 0xFEFF)"

definition trim :: "jsstring \<Rightarrow> jsstring" where
  "trim s = rev (dropWhile is_js_space (rev (dropWhile is_js_space s)))"

section \<open>The regular expressions of the sources\<close>

text \<open>
  Both regular expressions of the sources, \<^verbatim>\<open>/^\d{4,6}$/\<close> (app-improved.js) and
  \<^verbatim>\<open>/^https?:\/\//\<close> (config.js), start with \<^verbatim>\<open>^\<close> and are a sequence of
  quantified atoms, the first one closed by \<^verbatim>\<open>$\<close>. A piece \<open>(a, lo, hi)\<close> is the atom
  \<open>a\<close> repeated between \<open>lo\<close> and \<open>hi\<close> times, greedily. Neither has the \<^verbatim>\<open>m\<close> flag, so
  \<^verbatim>\<open>^\<close> is the start and \<^verbatim>\<open>$\<close> the end of the input; \<^verbatim>\<open>\d\<close> is \<^verbatim>\<open>[0-9]\<close>.
\<close>

datatype atom = Digit | Lit jschar

type_synonym piece = "atom \<times> nat \<times> nat"

record regex =
  pieces :: "piece list"
  end_anchor :: bool

fun atom_matches :: "atom \<Rightarrow> jschar \<Rightarrow> bool" where
  "atom_matches Digit c = (0x30 \<le> c \<and> c \<le> 0x39)"
| "atom_matches (Lit a) c = (c = a)"

text \<open>
  The texts that can remain after the repetition of one atom at the start of the input,
  the longest repetition first (the order in which a backtracking matcher tries them).
\<close>

fun rep_rests :: "atom \<Rightarrow> nat \<Rightarrow> nat \<Rightarrow> jsstring \<Rightarrow> jsstring list" where
  "rep_rests a lo hi [] = (if lo = 0 then [[]] else [])"
| "rep_rests a lo hi (c # cs) =
     (if 0 < hi \<and> atom_matches a c then rep_rests a (lo - 1) (hi - 1) cs else [])
     @ (if lo = 0 then [c # cs] else [])"

fun match_pieces :: "piece list \<Rightarrow> jsstring \<Rightarrow> jsstring list" where
  "match_pieces [] s = [s]"
| "match_pieces ((a, lo, hi) # ps) s = concat (map (match_pieces ps) (rep_rests a lo hi s))"

text \<open>The text after the match that the matcher finds first, if the input matches.\<close>

definition regex_exec :: "regex \<Rightarrow> jsstring \<Rightarrow> jsstring option" where
  "regex_exec r s =
     find (\<lambda>rest. \<not> end_anchor r \<or> rest = []) (match_pieces (pieces r) s)"

definition regex_test :: "regex \<Rightarrow> jsstring \<Rightarrow> bool" where
  "regex_test r s = (regex_exec r s \<noteq> None)"

text \<open>\<open>s.replace(r, repl)\<close> for a regular expression without the \<^verbatim>\<open>g\<close> flag.\<close>

definition replace_first :: "regex \<Rightarrow> jsstring \<Rightarrow> jsstring \<Rightarrow> jsstring" where
  "replace_first r repl s = (case regex_exec r s of None \<Rightarrow> s | Some rest \<Rightarrow> repl @ rest)"

definition lits :: "string \<Rightarrow> piece list" where
  "lits s = map (\<lambda>c. (Lit (of_char c), 1, 1)) s"

definition stock_code_regex :: regex where
  "stock_code_regex = \<lparr>pieces = [(Digit, 4, 6)], end_anchor = True\<rparr>"

definition scheme_regex :: regex where
  "scheme_regex =
     \<lparr>pieces = lits ''http'' @ [(Lit (of_char CHR ''s''), 0, 1)] @ lits ''://'',
      end_anchor = False\<rparr>"

section \<open>config.js\<close>

definition getBaseUrl :: "jsstring \<Rightarrow> jsstring" where
  "getBaseUrl hostname =
     (if hostname = js ''localhost'' \<or> hostname = js ''127.0.0.1''
      then js ''http://localhost:8000''
      else js ''https://willis-stock-genie-api.onrender.com'')"

text \<open>The body of \<open>getWebSocketUrl\<close> after \<open>baseUrl\<close> has been read.\<close>

definition webSocketUrlOf :: "jsstring \<Rightarrow> jsstring" where
  "webSocketUrlOf baseUrl =
     (let wsProtocol = (if startsWith baseUrl (js ''https'') then js ''wss'' else js ''ws'');
          wsHost = replace_first scheme_regex [] baseUrl
      in wsProtocol @ js ''://'' @ wsHost)"

definition getWebSocketUrl :: "jsstring \<Rightarrow> jsstring" where
  "getWebSocketUrl hostname = webSocketUrlOf (getBaseUrl hostname)"

section \<open>The state of the application\<close>

text \<open>
  The fields of \<open>FinGeniusApp\<close> (app-improved.js), the parts of the page the modelled
  methods read and write, and the browser facilities they call: the clock, the timers
  of \<open>setTimeout\<close>, the socket's send queue and \<open>Math.random\<close>. The page itself
  (index.html) is not among the sources; the elements the script addresses by a fixed id
  are taken to exist, the agent cards are the ones \<open>resetProgress\<close> creates.
\<close>

datatype conn_status = Disconnected | Connecting | Connected | Analyzing

datatype readyState = CONNECTING | OPEN | CLOSING | CLOSED

record battle_result =
  final_decision :: jsstring
  vote_count :: "(jsstring \<times> int) list"

text \<open>
  The \<open>results\<close> object of an \<open>analysis_complete\<close> message: its \<open>research\<close> and
  \<open>battle\<close> properties where present, and the number of its other own properties.
\<close>

record results =
  research :: "jsstring option"
  battle :: "battle_result option"
  other_keys :: nat

record stock_info =
  info_name :: jsstring
  info_industry :: jsstring

datatype message =
    ValidationResult bool "stock_info option" "jsstring option"
  | AnalysisStarted
  | PhaseStarted jsstring jsstring
  | PhaseCompleted jsstring jsstring
  | AgentProgress jsstring jsstring jsstring
  | BattleStarted
  | BattleResults jsstring "(jsstring \<times> int) list"
  | AnalysisComplete "results option"
  | ApiConfigResult bool jsstring
  | ApiTestResult bool jsstring
  | ErrorMessage "jsstring option"
  | UnknownType jsstring

datatype request =
    ValidateStock jsstring
  | StartAnalysis jsstring
  | CancelAnalysis "jsstring option"
  | ConfigureApi

text \<open>The texts of the toasts, one constructor for each call of \<open>showToast\<close>.\<close>

datatype toast =
    T_Connected
  | T_ConnectFailed
  | T_AnalysisStarted "jsstring option"
  | T_PhaseStarted jsstring
  | T_PhaseCompleted jsstring jsstring
  | T_BattleStarted
  | T_BattleDone jsstring
  | T_WaitingBattle
  | T_NoValidData
  | T_AnalysisDone int
  | T_AnalysisDoneNoTime
  | T_FetchingResults
  | T_RefreshManually
  | T_Retrying
  | T_Cancelled
  | T_StartAnalysis jsstring
  | T_SendFailed
  | T_OfflineDemo
  | T_Error "jsstring option"
  | T_ApiResult bool jsstring
  | T_RealResultsLoaded
  | T_MockResultsReady
  | T_Welcome

text \<open>The texts shown under the stock code field.\<close>

datatype vmsg =
    V_EnterCode
  | V_BadFormat
  | V_FormatOk
  | V_Validating
  | V_OfflineOk
  | V_NotFound
  | V_ServerOk
  | V_ServerNotFound
  | V_Server jsstring

text \<open>
  The content of the element \<open>stockInfo\<close>: empty, the error or success span of
  \<open>showValidationError\<close> / \<open>showValidationSuccess\<close>, or the line with the name, the code
  and the industry of a stock.
\<close>

datatype info_html =
    Info_Empty
  | Info_Error vmsg
  | Info_Success vmsg
  | Info_Stock jsstring jsstring jsstring

text \<open>The texts of the element \<open>progressText\<close>.\<close>

datatype ptext =
    P_Initial
  | P_Raw jsstring
  | P_AgentAnalyzing jsstring
  | P_ResearchDone
  | P_Phase jsstring
  | P_Battle
  | P_BattleDone
  | P_WaitingBattle
  | P_Report
  | P_Preparing
  | P_Done

datatype card_text = St_Waiting | St_Analyzing | St_SimAnalyzing | St_Done

text \<open>
  An agent card: the text of its \<open>.fw-bold\<close> child, whether its class list holds
  \<open>active\<close> and \<open>completed\<close>, and the text of its status element.
\<close>

record card =
  card_name :: jsstring
  active :: bool
  completed :: bool
  status_text :: card_text

datatype result_source = RealResults | MockResults

text \<open>
  The callbacks handed to \<open>setTimeout\<close>, with the variables their closures capture:
  the stock code, and for the simulated run the captured card elements (the generation
  of the cards and the agent's identity) and \<open>currentIndex\<close>.
\<close>

datatype timer_cb =
    FocusAnalyzeBtn
  | ReportWatchdog
  | EnableButtonLater
  | RestoreValidateBtn
  | MockValidation jsstring
  | ScrollToProgress
  | SendStartAnalysis jsstring
  | SimAgentDone nat jsstring nat
  | SimBattlePhase
  | SimReport
  | SimFinish
  | ShowResultCard
  | Welcome

record timer =
  tid :: nat
  due :: nat
  cb :: timer_cb

record app =
  currentStock :: "jsstring option"
  analysisResults :: "results option"
  websocket :: "readyState option"
  analysisStartTime :: "nat option"
  connectionStatus :: conn_status
  analysisCompleted :: bool
  isBattleComplete :: bool
  awaitingBattleCompletion :: bool
  resultsDisplayed :: bool
  lastAnalysisElapsedTime :: int
  analysisHasResults :: bool
  pendingSuccessToast :: bool
  reportCompleteTimeout :: "nat option"
  stockCode_value :: jsstring
  stockCode_is_invalid :: bool
  stockCode_is_valid :: bool
  stockInfo :: info_html
  validateBtn_disabled :: bool
  analyzeBtn_disabled :: bool
  progressCard_shown :: bool
  resultCard_shown :: bool
  battleCard_shown :: bool
  progressBar_width :: real
  progressPercent :: int
  progressText :: ptext
  cards :: "(jsstring \<times> card) list"
  cardGen :: nat
  resultsLoaded :: "result_source option"
  battleResults_shown :: "battle_result option"
  now :: nat
  timers :: "timer list"
  next_tid :: nat
  random_ms :: "nat \<Rightarrow> nat"
  random_calls :: nat
  toasts :: "toast list"
  sent :: "request list"

section \<open>Browser facilities\<close>

text \<open>
  \<open>setTimeout\<close> registers a callback \<open>delay\<close> milliseconds from now and returns a fresh
  positive handle (the value of \<open>next_tid\<close> before the call); \<open>clearTimeout\<close> removes the
  timer with that handle, if it is still pending.
\<close>

definition setTimeout :: "timer_cb \<Rightarrow> nat \<Rightarrow> app \<Rightarrow> app" where
  "setTimeout c delay s =
     s\<lparr>timers := timers s @ [\<lparr>tid = next_tid s, due = now s + delay, cb = c\<rparr>],
       next_tid := Suc (next_tid s)\<rparr>"

definition clearTimeout :: "nat \<Rightarrow> app \<Rightarrow> app" where
  "clearTimeout h s = s\<lparr>timers := filter (\<lambda>t. tid t \<noteq> h) (timers s)\<rparr>"

text \<open>\<open>Math.round\<close> rounds to the nearest integer, a half towards \<open>+\<infinity>\<close>.\<close>

definition Math_round :: "real \<Rightarrow> int" where
  "Math_round x = \<lfloor>x + 1 / 2\<rfloor>"

text \<open>
  \<open>showToast\<close> appends a toast to the page; the log keeps every toast shown (the removal
  of a toast after three seconds is not modelled).
\<close>

definition showToast :: "toast \<Rightarrow> app \<Rightarrow> app" where
  "showToast t s = s\<lparr>toasts := toasts s @ [t]\<rparr>"

definition ws_is_open :: "app \<Rightarrow> bool" where
  "ws_is_open s = (websocket s = Some OPEN)"

definition ws_send :: "request \<Rightarrow> app \<Rightarrow> app" where
  "ws_send r s = s\<lparr>sent := sent s @ [r]\<rparr>"

section \<open>app-improved.js: validation messages and buttons\<close>

definition showValidationError :: "vmsg \<Rightarrow> app \<Rightarrow> app" where
  "showValidationError m s = s\<lparr>stockInfo := Info_Error m, stockCode_is_invalid := True\<rparr>"

definition showValidationSuccess :: "vmsg \<Rightarrow> app \<Rightarrow> app" where
  "showValidationSuccess m s =
     s\<lparr>stockInfo := Info_Success m, stockCode_is_invalid := False, stockCode_is_valid := True\<rparr>"

definition clearValidationError :: "app \<Rightarrow> app" where
  "clearValidationError s =
     s\<lparr>stockInfo := Info_Empty, stockCode_is_invalid := False, stockCode_is_valid := False\<rparr>"

definition disableAnalysisButton :: "app \<Rightarrow> app" where
  "disableAnalysisButton s = s\<lparr>analyzeBtn_disabled := True\<rparr>"

definition enableAnalysisButton :: "app \<Rightarrow> app" where
  "enableAnalysisButton s = s\<lparr>analyzeBtn_disabled := False\<rparr>"

definition isValidFormat :: "jsstring \<Rightarrow> bool" where
  "isValidFormat stockCode = regex_test stock_code_regex stockCode"

definition validateInput :: "jsstring \<Rightarrow> app \<Rightarrow> app" where
  "validateInput v s =
     (let stockCode = trim v;
          s1 = clearValidationError s
      in if stockCode = [] then s1
         else if \<not> isValidFormat stockCode then showValidationError V_BadFormat s1
         else showValidationSuccess V_FormatOk s1)"

section \<open>app-improved.js: progress\<close>

definition setProgress :: "real \<Rightarrow> ptext option \<Rightarrow> app \<Rightarrow> app" where
  "setProgress percent text s =
     (let clampedPercent = max 0 (min percent 100);
          s1 = s\<lparr>progressBar_width := clampedPercent,
                 progressPercent := Math_round clampedPercent\<rparr>
      in case text of None \<Rightarrow> s1 | Some t \<Rightarrow> s1\<lparr>progressText := t\<rparr>)"

text \<open>The number of elements matching \<^verbatim>\<open>.agent-card.completed\<close>.\<close>

definition completedAgents :: "app \<Rightarrow> nat" where
  "completedAgents s = length (filter (\<lambda>(k, c). completed c) (cards s))"

definition updateProgressBar :: "app \<Rightarrow> app" where
  "updateProgressBar s =
     (let totalAgents = 6;
          progress = (real (completedAgents s) / real totalAgents) * 100;
          s1 = setProgress progress None s
      in if completedAgents s = totalAgents then s1\<lparr>progressText := P_ResearchDone\<rparr> else s1)"

text \<open>Writing to the first element with the id of the agent's card.\<close>

fun set_card :: "jsstring \<Rightarrow> card \<Rightarrow> (jsstring \<times> card) list \<Rightarrow> (jsstring \<times> card) list" where
  "set_card k c [] = []"
| "set_card k c ((k', c') # rest) =
     (if k' = k then (k', c) # rest else (k', c') # set_card k c rest)"

definition handleAgentProgress :: "jsstring \<Rightarrow> jsstring \<Rightarrow> jsstring \<Rightarrow> app \<Rightarrow> app" where
  "handleAgentProgress agent status progressMessage s =
     (if agent = js ''all'' then s\<lparr>progressText := P_Raw progressMessage\<rparr>
      else case map_of (cards s) agent of
        None \<Rightarrow> s
      | Some agentCard \<Rightarrow>
          if status = js ''started'' then
            s\<lparr>cards := set_card agent
                 (agentCard\<lparr>active := True, completed := False, status_text := St_Analyzing\<rparr>)
                 (cards s),
              progressText := P_AgentAnalyzing (card_name agentCard)\<rparr>
          else if status = js ''completed'' then
            updateProgressBar
              (s\<lparr>cards := set_card agent
                 (agentCard\<lparr>active := False, completed := True, status_text := St_Done\<rparr>)
                 (cards s)\<rparr>)
          else s)"

text \<open>
  The status of an Agent Progress Record as \<open>updateProgressBar\<close> reads it off the card's
  class list.
\<close>

datatype agent_status = Waiting | Started | Completed

definition record_status :: "card \<Rightarrow> agent_status" where
  "record_status c = (if completed c then Completed else if active c then Started else Waiting)"

definition agent_status_of :: "app \<Rightarrow> jsstring \<Rightarrow> agent_status option" where
  "agent_status_of s agent = map_option record_status (map_of (cards s) agent)"

section \<open>app-improved.js: the two-signal barrier\<close>

definition showAnalysisResults :: "app \<Rightarrow> app" where
  "showAnalysisResults s =
     (if resultsDisplayed s then s
      else
        let s1 = s\<lparr>resultsDisplayed := True, awaitingBattleCompletion := False\<rparr>;
            s2 = setProgress 100 (Some P_Done) s1;
            s3 = (if pendingSuccessToast s2 \<and> analysisHasResults s2 then
                    let elapsed = lastAnalysisElapsedTime s2;
                        toastMessage =
                          (if elapsed > 0 then T_AnalysisDone elapsed else T_AnalysisDoneNoTime)
                    in (showToast toastMessage s2)\<lparr>pendingSuccessToast := False\<rparr>
                  else s2);
            s4 = s3\<lparr>pendingSuccessToast := False\<rparr>
        in setTimeout ShowResultCard 1000 s4)"

definition empty_results :: results where
  "empty_results = \<lparr>research = None, battle = None, other_keys = 0\<rparr>"

text \<open>\<^verbatim>\<open>Object.keys(r).length > 0\<close>\<close>

definition has_keys :: "results \<Rightarrow> bool" where
  "has_keys r = (research r \<noteq> None \<or> battle r \<noteq> None \<or> other_keys r > 0)"

text \<open>
  \<open>handleBattleResults\<close> for a message whose \<open>final_decision\<close> is a string, as the
  message contract has it (the method calls \<open>includes\<close> on it). The icon of the toast is
  a function of the decision and is left out.
\<close>

definition handleBattleResults :: "jsstring \<Rightarrow> (jsstring \<times> int) list \<Rightarrow> app \<Rightarrow> app" where
  "handleBattleResults fd vc s =
     (let wasAwaitingBattle = awaitingBattleCompletion s;
          s1 = s\<lparr>isBattleComplete := True, awaitingBattleCompletion := False\<rparr>;
          s2 = setProgress 95 (Some P_BattleDone) s1;
          r = (case analysisResults s2 of None \<Rightarrow> empty_results | Some r \<Rightarrow> r);
          s3 = s2\<lparr>analysisResults :=
                    Some (r\<lparr>battle := Some \<lparr>final_decision = fd, vote_count = vc\<rparr>\<rparr>)\<rparr>;
          s4 = showToast (T_BattleDone fd) s3
      in if analysisCompleted s4 \<and> (wasAwaitingBattle \<or> \<not> resultsDisplayed s4)
         then showAnalysisResults s4 else s4)"

text \<open>
  \<open>handleAnalysisComplete\<close>; the argument is \<open>message.results\<close>, \<open>None\<close> when the message
  carries none. The elapsed time is \<^verbatim>\<open>Math.round((Date.now() - start) / 1000)\<close>.
\<close>

definition handleAnalysisComplete :: "results option \<Rightarrow> app \<Rightarrow> app" where
  "handleAnalysisComplete message_results s =
     (let s1 = (case reportCompleteTimeout s of
                  Some h \<Rightarrow> (clearTimeout h s)\<lparr>reportCompleteTimeout := None\<rparr>
                | None \<Rightarrow> s);
          s2 = s1\<lparr>analysisResults := message_results, connectionStatus := Connected,
                  analysisCompleted := True\<rparr>;
          elapsedTime = (case analysisStartTime s2 of
                           Some t0 \<Rightarrow> Math_round (real_of_int (int (now s2) - int t0) / 1000)
                         | None \<Rightarrow> 0);
          hasResults = (case analysisResults s2 of Some r \<Rightarrow> has_keys r | None \<Rightarrow> False);
          s3 = s2\<lparr>analysisHasResults := hasResults, lastAnalysisElapsedTime := elapsedTime\<rparr>;
          s4 = (if isBattleComplete s3 then showAnalysisResults s3
                else (showToast T_WaitingBattle
                        (setProgress 90 (Some P_WaitingBattle)
                           (s3\<lparr>awaitingBattleCompletion := True\<rparr>)))
                     \<lparr>pendingSuccessToast := True\<rparr>);
          s5 = (if \<not> hasResults then (showToast T_NoValidData s4)\<lparr>pendingSuccessToast := False\<rparr>
                else if isBattleComplete s4 then showToast (T_AnalysisDone elapsedTime) s4
                else s4);
          s6 = (if isBattleComplete s5 then s5\<lparr>pendingSuccessToast := False\<rparr> else s5)
      in enableAnalysisButton s6)"

section \<open>app-improved.js: the other message handlers\<close>

text \<open>\<^verbatim>\<open>message.message || fallback\<close>: an absent or empty text gives the fallback.\<close>

definition text_or :: "jsstring option \<Rightarrow> vmsg \<Rightarrow> vmsg" where
  "text_or m fallback = (case m of None \<Rightarrow> fallback | Some t \<Rightarrow> if t = [] then fallback else V_Server t)"

text \<open>How a template literal prints \<open>this.currentStock\<close>.\<close>

definition render_stock :: "jsstring option \<Rightarrow> jsstring" where
  "render_stock c = (case c of None \<Rightarrow> js ''null'' | Some t \<Rightarrow> t)"

definition handleValidationResult :: "bool \<Rightarrow> stock_info option \<Rightarrow> jsstring option \<Rightarrow> app \<Rightarrow> app" where
  "handleValidationResult valid info m s =
     (case info of
        Some i \<Rightarrow>
          if valid then
            setTimeout FocusAnalyzeBtn 500
              (showValidationSuccess (text_or m V_ServerOk)
                 (s\<lparr>stockInfo := Info_Stock (info_name i) (render_stock (currentStock s))
                                   (info_industry i)\<rparr>))
          else showValidationError (text_or m V_ServerNotFound) s
      | None \<Rightarrow> showValidationError (text_or m V_ServerNotFound) s)"

text \<open>
  \<open>Date.now()\<close> is the clock of the model (plus the time of the page load, so it is
  never 0 and a recorded start time is truthy).
\<close>

definition handleAnalysisStarted :: "app \<Rightarrow> app" where
  "handleAnalysisStarted s =
     showToast (T_AnalysisStarted (currentStock s))
       (s\<lparr>analysisStartTime := Some (now s), connectionStatus := Analyzing\<rparr>)"

definition handlePhaseStarted :: "jsstring \<Rightarrow> jsstring \<Rightarrow> app \<Rightarrow> app" where
  "handlePhaseStarted phase phaseMessage s =
     showToast (T_PhaseStarted phase) (s\<lparr>progressText := P_Phase phaseMessage\<rparr>)"

definition handlePhaseCompleted :: "jsstring \<Rightarrow> jsstring \<Rightarrow> app \<Rightarrow> app" where
  "handlePhaseCompleted phase phaseMessage s =
     (let s1 = showToast (T_PhaseCompleted phase phaseMessage) s
      in if phase = js ''report'' then
           let s2 = (case reportCompleteTimeout s1 of
                       Some h \<Rightarrow> clearTimeout h s1
                     | None \<Rightarrow> s1);
               h' = next_tid s2;
               s3 = setTimeout ReportWatchdog 30000 s2
           in s3\<lparr>reportCompleteTimeout := Some h'\<rparr>
         else s1)"

definition handleBattleStarted :: "app \<Rightarrow> app" where
  "handleBattleStarted s =
     (showToast T_BattleStarted (setProgress 80 (Some P_Battle) s))\<lparr>battleCard_shown := True\<rparr>"

definition tryLoadLatestReport :: "app \<Rightarrow> app" where
  "tryLoadLatestReport s = setTimeout EnableButtonLater 2000 (showToast T_RefreshManually s)"

text \<open>
  The dialog for the API credentials is outside the model: of the two messages about it
  only the toast is kept.
\<close>

fun handleWebSocketMessage :: "message \<Rightarrow> app \<Rightarrow> app" where
  "handleWebSocketMessage (ValidationResult valid info m) s = handleValidationResult valid info m s"
| "handleWebSocketMessage AnalysisStarted s = handleAnalysisStarted s"
| "handleWebSocketMessage (PhaseStarted phase m) s = handlePhaseStarted phase m s"
| "handleWebSocketMessage (PhaseCompleted phase m) s = handlePhaseCompleted phase m s"
| "handleWebSocketMessage (AgentProgress agent status m) s = handleAgentProgress agent status m s"
| "handleWebSocketMessage BattleStarted s = handleBattleStarted s"
| "handleWebSocketMessage (BattleResults fd vc) s = handleBattleResults fd vc s"
| "handleWebSocketMessage (AnalysisComplete r) s = handleAnalysisComplete r s"
| "handleWebSocketMessage (ApiConfigResult ok m) s = showToast (T_ApiResult ok m) s"
| "handleWebSocketMessage (ApiTestResult ok m) s = showToast (T_ApiResult ok m) s"
| "handleWebSocketMessage (ErrorMessage m) s = enableAnalysisButton (showToast (T_Error m) s)"
| "handleWebSocketMessage (UnknownType t) s = s"

section \<open>app-improved.js: the offline table\<close>

definition mockStocks :: "(jsstring \<times> jsstring \<times> jsstring \<times> jsstring) list" where
  "mockStocks =
     [(js ''2330'', js ''2330'', [0x53F0, 0x7A4D, 0x96FB], [0x534A, 0x5C0E, 0x9AD4]),
      (js ''2317'', js ''2317'', [0x9D3B, 0x6D77], [0x96FB, 0x5B50, 0x96F6, 0x4EF6]),
      (js ''2454'', js ''2454'', [0x806F, 0x767C, 0x79D1], [0x534A, 0x5C0E, 0x9AD4]),
      (js ''3008'', js ''3008'', [0x5927, 0x7ACB, 0x5149], [0x5149, 0x5B78, 0x93E1, 0x982D]),
      (js ''2881'', js ''2881'', [0x5BCC, 0x90A6, 0x91D1], [0x91D1, 0x878D, 0x4FDD, 0x96AA]),
      (js ''2882'', js ''2882'', [0x570B, 0x6CF0, 0x91D1], [0x91D1, 0x878D, 0x4FDD, 0x96AA])]"

text \<open>
  \<open>mockStocks\<close> is an object literal, so \<open>mockStocks[stockCode]\<close> also finds what the
  object inherits from \<open>Object.prototype\<close>: under these keys the lookup gives a function
  (under \<^verbatim>\<open>__proto__\<close> the prototype itself), which is truthy.
\<close>

definition object_prototype_keys :: "jsstring list" where
  "object_prototype_keys =
     [js ''constructor'', js ''hasOwnProperty'', js ''isPrototypeOf'',
      js ''propertyIsEnumerable'', js ''toLocaleString'', js ''toString'', js ''valueOf'',
      js ''__proto__'', js ''__defineGetter__'', js ''__defineSetter__'',
      js ''__lookupGetter__'', js ''__lookupSetter__'']"

datatype mock_value =
    OwnEntry jsstring jsstring jsstring
  | Inherited jsstring

definition getMockStockInfo :: "jsstring \<Rightarrow> mock_value option" where
  "getMockStockInfo stockCode =
     (case map_of mockStocks stockCode of
        Some (code, name, industry) \<Rightarrow> Some (OwnEntry code name industry)
      | None \<Rightarrow> if stockCode \<in> set object_prototype_keys then Some (Inherited stockCode) else None)"

text \<open>
  How a template literal prints the properties \<open>name\<close>, \<open>code\<close> and \<open>industry\<close> of the
  value found: a built-in function has a \<open>name\<close> (that of \<open>constructor\<close> is \<open>Object\<close>), and
  nothing else is defined on an inherited member.
\<close>

fun mock_name :: "mock_value \<Rightarrow> jsstring" where
  "mock_name (OwnEntry code name industry) = name"
| "mock_name (Inherited k) =
     (if k = js ''__proto__'' then js ''undefined''
      else if k = js ''constructor'' then js ''Object'' else k)"

fun mock_code :: "mock_value \<Rightarrow> jsstring" where
  "mock_code (OwnEntry code name industry) = code"
| "mock_code (Inherited k) = js ''undefined''"

fun mock_industry :: "mock_value \<Rightarrow> jsstring" where
  "mock_industry (OwnEntry code name industry) = industry"
| "mock_industry (Inherited k) = js ''undefined''"

text \<open>The callback of the timer that \<open>useMockValidation\<close> sets.\<close>

definition mockValidation_callback :: "jsstring \<Rightarrow> app \<Rightarrow> app" where
  "mockValidation_callback stockCode s =
     (case getMockStockInfo stockCode of
        Some mockStockInfo \<Rightarrow>
          showValidationSuccess V_OfflineOk
            (s\<lparr>stockInfo := Info_Stock (mock_name mockStockInfo) (mock_code mockStockInfo)
                              (mock_industry mockStockInfo)\<rparr>)
      | None \<Rightarrow> showValidationError V_NotFound s)"

definition useMockValidation :: "jsstring \<Rightarrow> app \<Rightarrow> app" where
  "useMockValidation stockCode s = setTimeout (MockValidation stockCode) 1000 s"

text \<open>
  \<open>validateStockCode\<close>. Sending on an open socket does not throw, so the \<open>catch\<close> branch
  is not reached.
\<close>

definition validateStockCode :: "app \<Rightarrow> app" where
  "validateStockCode s =
     (let stockCode = trim (stockCode_value s)
      in if stockCode = [] then showValidationError V_EnterCode s
         else
           let s1 = showValidationSuccess V_Validating (s\<lparr>currentStock := Some stockCode\<rparr>);
               s2 = s1\<lparr>validateBtn_disabled := True\<rparr>
           in if ws_is_open s2
              then setTimeout RestoreValidateBtn 5000 (ws_send (ValidateStock stockCode) s2)
              else (useMockValidation stockCode s2)\<lparr>validateBtn_disabled := False\<rparr>)"

section \<open>app-improved.js: starting, simulating and cancelling a run\<close>

definition sendApiConfigToBackend :: "app \<Rightarrow> app" where
  "sendApiConfigToBackend s = (if \<not> ws_is_open s then s else ws_send ConfigureApi s)"

text \<open>The identities and the names of the six analysts, as \<open>resetProgress\<close> lists them.\<close>

definition agents :: "(jsstring \<times> jsstring) list" where
  "agents =
     [(js ''sentiment'', [0x8F3F, 0x60C5, 0x5206, 0x6790]),
      (js ''risk'', [0x98A8, 0x96AA, 0x8A55, 0x4F30]),
      (js ''institutional_investor'', [0x4E09, 0x5927, 0x6CD5, 0x4EBA]),
      (js ''technical'', [0x6280, 0x8853, 0x5206, 0x6790]),
      (js ''chip_analysis'', [0x7C4C, 0x78BC, 0x5206, 0x6790]),
      (js ''big_deal'', [0x5927, 0x984D, 0x4EA4, 0x6613])]"

definition resetProgress :: "app \<Rightarrow> app" where
  "resetProgress s =
     (let s1 = s\<lparr>analysisCompleted := False, isBattleComplete := False,
                  awaitingBattleCompletion := False, resultsDisplayed := False,
                  lastAnalysisElapsedTime := 0, analysisHasResults := False,
                  pendingSuccessToast := False\<rparr>;
          s2 = setProgress 0 (Some P_Preparing) s1
      in s2\<lparr>cards := map (\<lambda>(agent_id, agent_name).
                    (agent_id, \<lparr>card_name = agent_name, active = False, completed = False,
                                status_text = St_Waiting\<rparr>)) agents,
            cardGen := Suc (cardGen s2)\<rparr>)"

text \<open>The list \<open>agents\<close> of \<open>simulateAnalysis\<close>.\<close>

definition sim_agents :: "jsstring list" where
  "sim_agents =
     [js ''sentiment'', js ''risk'', js ''institutional_investor'', js ''technical'',
      js ''chip_analysis'', js ''big_deal'']"

text \<open>
  \<open>processNextAgent\<close> with the value of \<open>currentIndex\<close>. A card that is not in the page
  makes the call fail with a TypeError, which leaves the state as it is. The delay
  \<^verbatim>\<open>2000 + Math.random() * 2000\<close> is 2000 plus less than 2000 milliseconds, taken from
  the random source. The timer's callback keeps the card elements it found; they are the
  page's cards as long as \<open>resetProgress\<close> has not replaced them.
\<close>

definition processNextAgent :: "nat \<Rightarrow> app \<Rightarrow> app" where
  "processNextAgent currentIndex s =
     (if currentIndex \<ge> length sim_agents then setTimeout SimBattlePhase 1000 s
      else
        let agentId = sim_agents ! currentIndex
        in case map_of (cards s) agentId of
             None \<Rightarrow> s
           | Some agentCard \<Rightarrow>
               let s1 = s\<lparr>cards := set_card agentId
                             (agentCard\<lparr>active := True, status_text := St_SimAnalyzing\<rparr>)
                             (cards s)\<rparr>;
                   progress = ((real currentIndex + 1 / 2) / real (length sim_agents)) * 70;
                   s2 = setProgress progress (Some (P_AgentAnalyzing (card_name agentCard))) s1;
                   analysisTime = 2000 + random_ms s2 (random_calls s2) mod 2000;
                   s3 = s2\<lparr>random_calls := Suc (random_calls s2)\<rparr>
               in setTimeout (SimAgentDone (cardGen s3) agentId currentIndex) analysisTime s3)"

definition simulateAnalysis :: "app \<Rightarrow> app" where
  "simulateAnalysis s = processNextAgent 0 s"

definition simAgentDone_callback :: "nat \<Rightarrow> jsstring \<Rightarrow> nat \<Rightarrow> app \<Rightarrow> app" where
  "simAgentDone_callback gen agentId currentIndex s =
     (let s1 = (if gen = cardGen s then
                  (case map_of (cards s) agentId of
                     Some agentCard \<Rightarrow>
                       s\<lparr>cards := set_card agentId
                            (agentCard\<lparr>active := False, completed := True, status_text := St_Done\<rparr>)
                            (cards s)\<rparr>
                   | None \<Rightarrow> s)
                else s);
          progress = (real (currentIndex + 1) / real (length sim_agents)) * 70;
          s2 = setProgress progress None s1
      in processNextAgent (currentIndex + 1) s2)"

definition simulateBattlePhase :: "app \<Rightarrow> app" where
  "simulateBattlePhase s =
     setTimeout SimReport 3000 (showToast T_BattleStarted (setProgress 80 (Some P_Battle) s))"

definition simReport_callback :: "app \<Rightarrow> app" where
  "simReport_callback s = setTimeout SimFinish 2000 (setProgress 90 (Some P_Report) s)"

definition simFinish_callback :: "app \<Rightarrow> app" where
  "simFinish_callback s =
     showAnalysisResults (s\<lparr>isBattleComplete := True, analysisCompleted := True\<rparr>)"

text \<open>
  \<open>startAnalysis\<close>. Nothing in its \<open>try\<close> block throws (the request itself is sent by
  a timer's callback), so the \<open>catch\<close> branch is not reached.
\<close>

definition startAnalysis :: "app \<Rightarrow> app" where
  "startAnalysis s =
     (let stockCode = trim (stockCode_value s)
      in if stockCode = [] then showValidationError V_EnterCode s
         else if \<not> regex_test stock_code_regex stockCode then showValidationError V_BadFormat s
         else
           let s1 = disableAnalysisButton (s\<lparr>currentStock := Some stockCode\<rparr>);
               s2 = s1\<lparr>progressCard_shown := True, resultCard_shown := False\<rparr>;
               s3 = setTimeout ScrollToProgress 100 s2;
               s4 = resetProgress s3
           in if ws_is_open s4
              then setTimeout (SendStartAnalysis stockCode) 100 (sendApiConfigToBackend s4)
              else simulateAnalysis (showToast T_OfflineDemo s4))"

text \<open>
  The callback that sends \<open>start_analysis\<close> 100 ms later does not look at the socket
  again: without a socket, or on one still connecting, \<open>send\<close> throws and the callback
  ends; on a closing or closed socket the data is dropped without an error.
\<close>

definition sendStartAnalysis_callback :: "jsstring \<Rightarrow> app \<Rightarrow> app" where
  "sendStartAnalysis_callback stockCode s =
     (case websocket s of
        None \<Rightarrow> s
      | Some CONNECTING \<Rightarrow> s
      | Some OPEN \<Rightarrow> showToast (T_StartAnalysis stockCode) (ws_send (StartAnalysis stockCode) s)
      | Some _ \<Rightarrow> showToast (T_StartAnalysis stockCode) s)"

definition retryAnalysis :: "app \<Rightarrow> app" where
  "retryAnalysis s =
     (case currentStock s of
        None \<Rightarrow> s
      | Some c \<Rightarrow> if c = [] then s else startAnalysis (showToast T_Retrying s))"

definition cancelAnalysis :: "app \<Rightarrow> app" where
  "cancelAnalysis s =
     (let s1 = (if ws_is_open s then ws_send (CancelAnalysis (currentStock s)) s else s);
          s2 = s1\<lparr>progressCard_shown := False, connectionStatus := Connected\<rparr>
      in showToast T_Cancelled (enableAnalysisButton s2))"

section \<open>app-improved.js: showing the results\<close>

definition displayBattleResults :: "battle_result \<Rightarrow> app \<Rightarrow> app" where
  "displayBattleResults battleData s = s\<lparr>battleResults_shown := Some battleData\<rparr>"

text \<open>
  Of \<open>loadRealResults\<close> and \<open>loadMockResults\<close> the model keeps which of them ran, the battle
  result handed to \<open>displayBattleResults\<close> and the closing toast; rendering the research
  texts and the charts is outside the model.
\<close>

definition loadRealResults :: "app \<Rightarrow> app" where
  "loadRealResults s =
     (let found = (case analysisResults s of None \<Rightarrow> None | Some r \<Rightarrow> battle r);
          s1 = (case found of
                  Some b \<Rightarrow> if final_decision b \<noteq> [] then displayBattleResults b s else s
                | None \<Rightarrow> s)
      in showToast T_RealResultsLoaded (s1\<lparr>resultsLoaded := Some RealResults\<rparr>))"

definition mock_battle :: battle_result where
  "mock_battle =
     \<lparr>final_decision = [0x770B, 0x591A],
      vote_count = [([0x770B, 0x591A], 4), ([0x770B, 0x7A7A], 2), ([0x4E2D, 0x6027], 0)]\<rparr>"

definition loadMockResults :: "app \<Rightarrow> app" where
  "loadMockResults s =
     (let found = (case analysisResults s of None \<Rightarrow> None | Some r \<Rightarrow> battle r);
          s1 = (case found of
                  Some b \<Rightarrow> displayBattleResults b s
                | None \<Rightarrow> displayBattleResults mock_battle s)
      in showToast T_MockResultsReady (s1\<lparr>resultsLoaded := Some MockResults\<rparr>))"

definition showResultCard_callback :: "app \<Rightarrow> app" where
  "showResultCard_callback s =
     (let s1 = s\<lparr>progressCard_shown := False, resultCard_shown := True\<rparr>;
          has_research = (case analysisResults s1 of None \<Rightarrow> False | Some r \<Rightarrow> research r \<noteq> None)
      in if has_research then loadRealResults s1 else loadMockResults s1)"

section \<open>Timers and the passing of time\<close>

fun run_cb :: "timer_cb \<Rightarrow> app \<Rightarrow> app" where
  "run_cb FocusAnalyzeBtn s = s"
| "run_cb ReportWatchdog s = tryLoadLatestReport (showToast T_FetchingResults s)"
| "run_cb EnableButtonLater s = enableAnalysisButton s"
| "run_cb RestoreValidateBtn s = s\<lparr>validateBtn_disabled := False\<rparr>"
| "run_cb (MockValidation stockCode) s = mockValidation_callback stockCode s"
| "run_cb ScrollToProgress s = s"
| "run_cb (SendStartAnalysis stockCode) s = sendStartAnalysis_callback stockCode s"
| "run_cb (SimAgentDone gen agentId currentIndex) s =
     simAgentDone_callback gen agentId currentIndex s"
| "run_cb SimBattlePhase s = simulateBattlePhase s"
| "run_cb SimReport s = simReport_callback s"
| "run_cb SimFinish s = simFinish_callback s"
| "run_cb ShowResultCard s = showResultCard_callback s"
| "run_cb Welcome s = showToast T_Welcome s"

text \<open>
  The pending timer that fires next: the one due first, among those due together the one
  set first.
\<close>

fun earliest :: "timer list \<Rightarrow> timer option" where
  "earliest [] = None"
| "earliest (t # ts) =
     (case earliest ts of
        None \<Rightarrow> Some t
      | Some u \<Rightarrow> if due u < due t then Some u else Some t)"

definition next_due :: "nat \<Rightarrow> app \<Rightarrow> timer option" where
  "next_due target s =
     (case earliest (timers s) of
        None \<Rightarrow> None
      | Some t \<Rightarrow> if due t \<le> target then Some t else None)"

definition fire :: "timer \<Rightarrow> app \<Rightarrow> app" where
  "fire t s =
     run_cb (cb t) (s\<lparr>timers := filter (\<lambda>u. tid u \<noteq> tid t) (timers s),
                      now := max (now s) (due t)\<rparr>)"

text \<open>
  An upper bound of the number of timers that a pending timer stands for: itself and
  those its callback sets, directly or through them.
\<close>

fun cb_weight :: "timer_cb \<Rightarrow> nat" where
  "cb_weight ReportWatchdog = 2"
| "cb_weight (SimAgentDone gen agentId currentIndex) = 5 + (5 - currentIndex)"
| "cb_weight SimBattlePhase = 4"
| "cb_weight SimReport = 3"
| "cb_weight SimFinish = 2"
| "cb_weight c = 1"

definition timers_weight :: "timer list \<Rightarrow> nat" where
  "timers_weight ts = sum_list (map (\<lambda>t. cb_weight (cb t)) ts)"

text \<open>
  Time passes up to \<open>target\<close>: the timers due by then fire in their order, each at its
  own time, among them the timers that the callbacks set on the way. Firing a timer
  lowers the weight of the pending timers, so this comes to an end.
\<close>

lemma timers_setProgress: "timers (setProgress p t s) = timers s"
  by (simp add: setProgress_def Let_def split: option.splits)

lemma timers_showToast: "timers (showToast t s) = timers s"
  by (simp add: showToast_def)

lemma timers_setTimeout: "timers (setTimeout c d s) = timers s @ [\<lparr>tid = next_tid s, due = now s + d, cb = c\<rparr>]"
  by (simp add: setTimeout_def)

lemma weight_append: "timers_weight (xs @ ys) = timers_weight xs + timers_weight ys"
  by (simp add: timers_weight_def)

lemma weight_single: "timers_weight [t] = cb_weight (cb t)"
  by (simp add: timers_weight_def)

lemma timers_showAnalysisResults:
  "timers_weight (timers (showAnalysisResults s)) \<le> timers_weight (timers s) + 1"
  by (simp add: showAnalysisResults_def Let_def timers_setProgress timers_showToast timers_setTimeout weight_append weight_single)

lemma timers_processNextAgent:
  "timers_weight (timers (processNextAgent i s)) \<le> timers_weight (timers s) + 4 + (6 - i)"
  by (auto simp: processNextAgent_def Let_def timers_setProgress timers_setTimeout weight_append weight_single sim_agents_def split: option.splits)

lemma run_cb_weight:
  "timers_weight (timers (run_cb c s)) + 1 \<le> timers_weight (timers s) + cb_weight c"
proof (cases c)
  case (SimAgentDone g a i)
  have "timers_weight (timers (run_cb c s)) \<le> timers_weight (timers s) + 4 + (6 - (i + 1))"
    unfolding SimAgentDone run_cb.simps simAgentDone_callback_def Let_def
    by (rule order_trans[OF timers_processNextAgent]) (simp add: timers_setProgress split: option.splits)
  then show ?thesis using SimAgentDone by simp
next
  case SimFinish
  then show ?thesis using timers_showAnalysisResults[of "s\<lparr>isBattleComplete := True, analysisCompleted := True\<rparr>"]
    by (simp add: simFinish_callback_def)
qed (simp_all add: tryLoadLatestReport_def timers_showToast timers_setTimeout weight_append weight_single
      enableAnalysisButton_def mockValidation_callback_def showValidationSuccess_def showValidationError_def
      sendStartAnalysis_callback_def ws_send_def simulateBattlePhase_def simReport_callback_def timers_setProgress
      showResultCard_callback_def loadRealResults_def loadMockResults_def displayBattleResults_def Let_def
      split: option.splits readyState.splits)

lemma earliest_mem: "earliest ts = Some t \<Longrightarrow> t \<in> set ts"
  by (induction ts arbitrary: t) (auto split: option.splits if_splits)

lemma weight_filter: "timers_weight (filter P ts) \<le> timers_weight ts"
  by (induction ts) (auto simp: timers_weight_def)

lemma weight_remove: "t \<in> set ts \<Longrightarrow> timers_weight (filter (\<lambda>u. tid u \<noteq> tid t) ts) + cb_weight (cb t) \<le> timers_weight ts"
proof (induction ts)
  case Nil
  then show ?case by simp
next
  case (Cons u us)
  show ?case
  proof (cases "tid u = tid t")
    case True
    show ?thesis
    proof (cases "u = t")
      case True
      then show ?thesis using weight_filter[of "\<lambda>u. tid u \<noteq> tid t" us]
        by (simp add: timers_weight_def)
    next
      case False
      with Cons have "t \<in> set us" by simp
      from Cons.IH[OF this] \<open>tid u = tid t\<close> show ?thesis
        by (simp add: timers_weight_def)
    qed
  next
    case False
    then have "u \<noteq> t" by auto
    with Cons have "t \<in> set us" by simp
    from Cons.IH[OF this] False show ?thesis
      by (simp add: timers_weight_def)
  qed
qed

lemma fire_weight:
  assumes "next_due target s = Some t"
  shows "timers_weight (timers (fire t s)) < timers_weight (timers s)"
proof -
  from assms have mem: "t \<in> set (timers s)"
    by (auto simp: next_due_def dest: earliest_mem split: option.splits if_splits)
  let ?s' = "s\<lparr>timers := filter (\<lambda>u. tid u \<noteq> tid t) (timers s), now := max (now s) (due t)\<rparr>"
  have "timers_weight (timers (fire t s)) + 1 \<le> timers_weight (timers ?s') + cb_weight (cb t)"
    unfolding fire_def by (rule run_cb_weight)
  moreover have "timers_weight (timers ?s') + cb_weight (cb t) \<le> timers_weight (timers s)"
    using weight_remove[OF mem] by simp
  ultimately show ?thesis by linarith
qed

function run_until :: "nat \<Rightarrow> app \<Rightarrow> app" where
  "run_until target s =
     (case next_due target s of
        None \<Rightarrow> s\<lparr>now := max (now s) target\<rparr>
      | Some t \<Rightarrow> run_until target (fire t s))"
  by pat_completeness auto
termination
  by (relation "measure (\<lambda>(target, s). timers_weight (timers s))") (auto simp: fire_weight)

declare run_until.simps [simp del]

section \<open>Events\<close>

datatype user_action =
    TypeCode jsstring
  | FocusCode
  | ClickValidate
  | SubmitForm
  | ClickCancel
  | ClickRetry

datatype socket_event = SocketOpen | SocketError | SocketClose

datatype event =
    Receive message
  | User user_action
  | Socket socket_event
  | Elapse nat

text \<open>The listeners that \<open>bindEvents\<close> attaches.\<close>

fun user_event :: "user_action \<Rightarrow> app \<Rightarrow> app" where
  "user_event (TypeCode v) s = validateInput v (s\<lparr>stockCode_value := v\<rparr>)"
| "user_event FocusCode s = clearValidationError s"
| "user_event ClickValidate s = validateStockCode s"
| "user_event SubmitForm s = startAnalysis s"
| "user_event ClickCancel s = cancelAnalysis s"
| "user_event ClickRetry s = retryAnalysis s"

text \<open>
  The listeners that \<open>setupWebSocket\<close> attaches to the socket; before \<open>onopen\<close> runs the
  browser has set the socket's \<open>readyState\<close> to \<open>OPEN\<close>.
\<close>

fun socket_handler :: "socket_event \<Rightarrow> app \<Rightarrow> app" where
  "socket_handler SocketOpen s =
     showToast T_Connected
       (s\<lparr>websocket := map_option (\<lambda>r. OPEN) (websocket s), connectionStatus := Connected\<rparr>)"
| "socket_handler SocketError s =
     (showToast T_ConnectFailed (s\<lparr>connectionStatus := Disconnected\<rparr>))\<lparr>websocket := None\<rparr>"
| "socket_handler SocketClose s = s\<lparr>connectionStatus := Disconnected, websocket := None\<rparr>"

fun step :: "event \<Rightarrow> app \<Rightarrow> app" where
  "step (Receive m) s = handleWebSocketMessage m s"
| "step (User a) s = user_event a s"
| "step (Socket e) s = socket_handler e s"
| "step (Elapse d) s = run_until (now s + d) s"

fun run :: "event list \<Rightarrow> app \<Rightarrow> app" where
  "run [] s = s"
| "run (e # es) s = run es (step e s)"

text \<open>
  The state when the constructor has returned: the socket is connecting, the welcome
  toast is due in half a second, the page is as loaded (an empty stock code field, no
  agent cards, the progress bar at nought). The argument is the source of
  \<open>Math.random\<close>.
\<close>

definition init :: "(nat \<Rightarrow> nat) \<Rightarrow> app" where
  "init rnd =
     \<lparr>currentStock = None, analysisResults = None, websocket = Some CONNECTING,
      analysisStartTime = None, connectionStatus = Connecting,
      analysisCompleted = False, isBattleComplete = False, awaitingBattleCompletion = False,
      resultsDisplayed = False, lastAnalysisElapsedTime = 0, analysisHasResults = False,
      pendingSuccessToast = False, reportCompleteTimeout = None,
      stockCode_value = [], stockCode_is_invalid = False, stockCode_is_valid = False,
      stockInfo = Info_Empty, validateBtn_disabled = False, analyzeBtn_disabled = False,
      progressCard_shown = False, resultCard_shown = False, battleCard_shown = False,
      progressBar_width = 0, progressPercent = 0, progressText = P_Initial,
      cards = [], cardGen = 0, resultsLoaded = None, battleResults_shown = None,
      now = 0, timers = [\<lparr>tid = 1, due = 500, cb = Welcome\<rparr>], next_tid = 2,
      random_ms = rnd, random_calls = 0, toasts = [], sent = []\<rparr>"

section \<open>Notions of the specification and of the proofs\<close>

text \<open>
  A stock code in the words of the specification: between four and six characters, each
  a decimal digit.
\<close>

definition is_digit :: "jschar \<Rightarrow> bool" where
  "is_digit c = (0x30 \<le> c \<and> c \<le> 0x39)"

definition four_to_six_digits :: "jsstring \<Rightarrow> bool" where
  "four_to_six_digits c = (4 \<le> length c \<and> length c \<le> 6 \<and> list_all is_digit c)"

text \<open>
  A loopback hostname in the words of the specification: a hostname that names the
  machine itself. These are \<^verbatim>\<open>localhost\<close> and the names under \<^verbatim>\<open>.localhost\<close>, the IPv4
  literals of the block \<^verbatim>\<open>127.0.0.0/8\<close>, and the IPv6 literal \<^verbatim>\<open>::1\<close>, which
  \<open>location.hostname\<close> prints in brackets.
\<close>

fun split_dots :: "jsstring \<Rightarrow> jsstring list" where
  "split_dots [] = [[]]"
| "split_dots (c # cs) =
     (if c = of_char CHR ''.'' then [] # split_dots cs
      else (case split_dots cs of [] \<Rightarrow> [[c]] | p # ps \<Rightarrow> (c # p) # ps))"

definition decimal :: "jsstring \<Rightarrow> nat" where
  "decimal ds = foldl (\<lambda>n c. 10 * n + (unat c - 48)) 0 ds"

definition octet :: "jsstring \<Rightarrow> bool" where
  "octet ds = (ds \<noteq> [] \<and> length ds \<le> 3 \<and> list_all is_digit ds \<and> decimal ds \<le> 255)"

definition loopback_ipv4 :: "jsstring \<Rightarrow> bool" where
  "loopback_ipv4 h =
     (case split_dots h of
        [a, b, c, d] \<Rightarrow> a = js ''127'' \<and> octet b \<and> octet c \<and> octet d
      | _ \<Rightarrow> False)"

definition endsWith :: "jsstring \<Rightarrow> jsstring \<Rightarrow> bool" where
  "endsWith s p = (length p \<le> length s \<and> drop (length s - length p) s = p)"

definition loopback_hostname :: "jsstring \<Rightarrow> bool" where
  "loopback_hostname h =
     (h = js ''localhost'' \<or> endsWith h (js ''.localhost'') \<or> loopback_ipv4 h
      \<or> h = js ''[::1]'')"

text \<open>What the progress bar shows lies between 0 and 100.\<close>

definition progress_in_range :: "app \<Rightarrow> bool" where
  "progress_in_range s =
     (0 \<le> progressBar_width s \<and> progressBar_width s \<le> 100
      \<and> 0 \<le> progressPercent s \<and> progressPercent s \<le> 100)"

text \<open>The page holds the six agent cards, in the order in which \<open>resetProgress\<close> makes them.\<close>

definition six_cards :: "app \<Rightarrow> bool" where
  "six_cards s = (map fst (cards s) = sim_agents)"

text \<open>
  Concrete states for the examples: a random source that always gives 0, the page after
  \<open>resetProgress\<close>, and a run started with the code 2330 on an open socket.
\<close>

definition no_random :: "nat \<Rightarrow> nat" where
  "no_random n = 0"

definition page_after_start :: app where
  "page_after_start = resetProgress (init no_random)"

definition online_run :: app where
  "online_run =
     run [User (TypeCode (js ''2330'')), Socket SocketOpen, User SubmitForm] (init no_random)"

text \<open>
  A sequence of \<open>agent_progress\<close> messages (agent, status, text) as events; a run in which
  the agent \<open>risk\<close> has completed.
\<close>

definition agent_progress_events :: "(jsstring \<times> jsstring \<times> jsstring) list \<Rightarrow> event list" where
  "agent_progress_events ms = map (\<lambda>(agent, status, m). Receive (AgentProgress agent status m)) ms"

definition risk_completed :: app where
  "risk_completed = run [Receive (AgentProgress (js ''risk'') (js ''completed'') [])] online_run"

text \<open>
  The six flags that \<open>resetProgress\<close> clears; a timer that shows the result card has
  been set with a handle from \<open>n\<close> on.
\<close>

definition barrier_flags_clear :: "app \<Rightarrow> bool" where
  "barrier_flags_clear s =
     (\<not> analysisCompleted s \<and> \<not> isBattleComplete s \<and> \<not> awaitingBattleCompletion s
      \<and> \<not> resultsDisplayed s \<and> \<not> analysisHasResults s \<and> \<not> pendingSuccessToast s)"

definition display_set_since :: "nat \<Rightarrow> app \<Rightarrow> bool" where
  "display_set_since n s = list_ex (\<lambda>t. cb t = ShowResultCard \<and> n \<le> tid t) (timers s)"

text \<open>A page that has shown the results of a run, the socket open, the code 2330 typed.\<close>

definition after_first_run :: app where
  "after_first_run =
     run [Receive (AnalysisComplete None), Receive (BattleResults (js ''bullish'') [])] online_run"

text \<open>
  The code \<^verbatim>\<open>AB12\<close> typed into the field, with an open socket and after the connection
  has failed; a page without a connection.
\<close>

definition typed_AB12_online :: app where
  "typed_AB12_online = run [Socket SocketOpen, User (TypeCode (js ''AB12''))] (init no_random)"

definition typed_AB12_offline :: app where
  "typed_AB12_offline = run [Socket SocketError, User (TypeCode (js ''AB12''))] (init no_random)"

definition offline_page :: app where
  "offline_page = run [Socket SocketError] (init no_random)"

text \<open>
  The pending watchdog timers, the watchdog's toasts among those shown, and the
  invariant of the timers: handles are distinct and below the next handle, and a pending
  watchdog is the one whose handle \<open>reportCompleteTimeout\<close> holds.
\<close>

definition watchdog_pending :: "app \<Rightarrow> timer list" where
  "watchdog_pending s = filter (\<lambda>t. cb t = ReportWatchdog) (timers s)"

definition watchdog_toasts :: "app \<Rightarrow> toast list" where
  "watchdog_toasts s = filter (\<lambda>t. t = T_FetchingResults \<or> t = T_RefreshManually) (toasts s)"

definition timers_ok :: "app \<Rightarrow> bool" where
  "timers_ok s =
     (distinct (map tid (timers s))
      \<and> list_all (\<lambda>t. tid t < next_tid s) (timers s)
      \<and> list_all (\<lambda>t. reportCompleteTimeout s = Some (tid t)) (watchdog_pending s))"

text \<open>
  A step is quiet when it only adds timers other than the watchdog, with fresh handles,
  and toasts other than the watchdog's, and leaves the clock and
  \<open>reportCompleteTimeout\<close> alone.
\<close>

definition new_timers :: "app \<Rightarrow> app \<Rightarrow> timer list" where
  "new_timers s s' = drop (length (timers s)) (timers s')"

definition new_toasts :: "app \<Rightarrow> app \<Rightarrow> toast list" where
  "new_toasts s s' = drop (length (toasts s)) (toasts s')"

definition quiet_step :: "app \<Rightarrow> app \<Rightarrow> bool" where
  "quiet_step s s' =
     (take (length (timers s)) (timers s') = timers s
      \<and> take (length (toasts s)) (toasts s') = toasts s
      \<and> list_all (\<lambda>t. cb t \<noteq> ReportWatchdog \<and> next_tid s \<le> tid t \<and> tid t < next_tid s')
           (new_timers s s')
      \<and> distinct (map tid (new_timers s s'))
      \<and> next_tid s \<le> next_tid s'
      \<and> reportCompleteTimeout s' = reportCompleteTimeout s
      \<and> now s' = now s
      \<and> list_all (\<lambda>t. t \<noteq> T_FetchingResults \<and> t \<noteq> T_RefreshManually) (new_toasts s s'))"

text \<open>
  The watchdog is armed for the time \<open>D\<close>, or no watchdog is pending; \<open>ws\<close> are the
  watchdog's toasts shown so far.
\<close>

definition armed :: "nat \<Rightarrow> toast list \<Rightarrow> app \<Rightarrow> bool" where
  "armed D ws s =
     (timers_ok s \<and> (\<exists>w. watchdog_pending s = [w] \<and> due w = D) \<and> watchdog_toasts s = ws)"

definition disarmed :: "toast list \<Rightarrow> app \<Rightarrow> bool" where
  "disarmed ws s = (timers_ok s \<and> watchdog_pending s = [] \<and> watchdog_toasts s = ws)"

definition watchdog_warning :: "toast list" where
  "watchdog_warning = [T_FetchingResults, T_RefreshManually]"

text \<open>The state in which the callback of a timer runs.\<close>

definition removed :: "timer \<Rightarrow> app \<Rightarrow> app" where
  "removed t s =
     s\<lparr>timers := filter (\<lambda>u. tid u \<noteq> tid t) (timers s), now := max (now s) (due t)\<rparr>"

text \<open>
  The events other than \<open>analysis_complete\<close> and the completion of the report phase, the
  events other than the latter, and the time that a sequence of events lets pass.
\<close>

fun quiet_event :: "event \<Rightarrow> bool" where
  "quiet_event (Receive (AnalysisComplete r)) = False"
| "quiet_event (Receive (PhaseCompleted phase m)) = (phase \<noteq> js ''report'')"
| "quiet_event e = True"

fun no_rearm :: "event \<Rightarrow> bool" where
  "no_rearm (Receive (PhaseCompleted phase m)) = (phase \<noteq> js ''report'')"
| "no_rearm e = True"

fun elapsed_of :: "event \<Rightarrow> nat" where
  "elapsed_of (Elapse d) = d"
| "elapsed_of e = 0"

definition elapsed :: "event list \<Rightarrow> nat" where
  "elapsed evs = sum_list (map elapsed_of evs)"

text \<open>
  The state after any events from the start of the page followed by the message that
  the report phase is completed; the watchdog is armed until the time \<open>D\<close> and has fired
  from then on; a run that has reached this message.
\<close>

definition after_report_phase :: "event list \<Rightarrow> (nat \<Rightarrow> nat) \<Rightarrow> jsstring \<Rightarrow> app" where
  "after_report_phase evs0 rnd m =
     run (evs0 @ [Receive (PhaseCompleted (js ''report'') m)]) (init rnd)"

definition watchdog_state :: "nat \<Rightarrow> toast list \<Rightarrow> app \<Rightarrow> bool" where
  "watchdog_state D ws s =
     (if now s < D then armed D ws s else disarmed (ws @ watchdog_warning) s)"

definition report_phase_reached :: app where
  "report_phase_reached =
     after_report_phase
       [User (TypeCode (js ''2330'')), Socket SocketOpen, User SubmitForm, Elapse 100,
        Receive AnalysisStarted] no_random []"

text \<open>The results are marked displayed only when both completion flags are set.\<close>

definition barrier_ok :: "app \<Rightarrow> bool" where
  "barrier_ok s = (resultsDisplayed s \<longrightarrow> analysisCompleted s \<and> isBattleComplete s)"

text \<open>
  A run on an open socket, a minute after the backend has confirmed its start; results
  that hold the research only; the two arrival orders of the completion messages, each
  followed by the second after which the result card appears.
\<close>

definition run_under_way :: app where
  "run_under_way = run [Elapse 100, Receive AnalysisStarted, Elapse 60000] online_run"

definition research_only :: results where
  "research_only = \<lparr>research = Some (js ''{}''), battle = None, other_keys = 0\<rparr>"

definition bearish_votes :: "(jsstring \<times> int) list" where
  "bearish_votes = [(js ''bearish'', 4), (js ''bullish'', 2)]"

definition analysis_first :: app where
  "analysis_first =
     run [Receive (AnalysisComplete (Some research_only)),
          Receive (BattleResults (js ''bearish'') bearish_votes), Elapse 1000] run_under_way"

definition battle_first :: app where
  "battle_first =
     run [Receive (BattleResults (js ''bearish'') bearish_votes),
          Receive (AnalysisComplete (Some research_only)), Elapse 1000] run_under_way"

text \<open>
  The number of displays of results triggered so far: the timers pending that will show
  the result card, and the result cards shown (each ends with one of two toasts).
  \<open>handle_ok\<close> says that the handle in \<open>reportCompleteTimeout\<close> is a used one and
  belongs to no pending timer but a watchdog. A step ticks when it triggers a display
  exactly if it sets \<open>resultsDisplayed\<close>. The events that do not start a run.
\<close>

definition displays :: "app \<Rightarrow> nat" where
  "displays s =
     length (filter (\<lambda>t. cb t = ShowResultCard) (timers s))
     + length (filter (\<lambda>t. t = T_RealResultsLoaded \<or> t = T_MockResultsReady) (toasts s))"

definition handle_ok :: "app \<Rightarrow> bool" where
  "handle_ok s =
     (case reportCompleteTimeout s of
        None \<Rightarrow> True
      | Some h \<Rightarrow> h < next_tid s \<and> list_all (\<lambda>t. tid t = h \<longrightarrow> cb t = ReportWatchdog) (timers s))"

definition tick :: "app \<Rightarrow> app \<Rightarrow> bool" where
  "tick s s' =
     (displays s' + of_bool (resultsDisplayed s) = displays s + of_bool (resultsDisplayed s'))"

fun no_start :: "event \<Rightarrow> bool" where
  "no_start (User SubmitForm) = False"
| "no_start (User ClickRetry) = False"
| "no_start e = True"

section \<open>The address of the backend\<close>

lemma rep_rests_none: "rep_rests a 0 0 s = [s]"
  by (cases s) simp_all

lemma webSocketUrlOf_http: "webSocketUrlOf (js ''http://'' @ h) = js ''ws://'' @ h"
  by (simp add: webSocketUrlOf_def startsWith_def replace_first_def regex_exec_def
      scheme_regex_def lits_def js_def rep_rests_none)

lemma webSocketUrlOf_https: "webSocketUrlOf (js ''https://'' @ h) = js ''wss://'' @ h"
  by (simp add: webSocketUrlOf_def startsWith_def replace_first_def regex_exec_def
      scheme_regex_def lits_def js_def rep_rests_none)

lemmas loopback_defs = loopback_hostname_def loopback_ipv4_def endsWith_def octet_def
  decimal_def is_digit_def js_def

lemma loopback_the_two:
  "loopback_hostname (js ''localhost'')" "loopback_hostname (js ''127.0.0.1'')"
  by (simp_all add: loopback_defs)

text \<open>
  Claim C7, as the code has it. The local development origin \<^verbatim>\<open>http://localhost:8000\<close>
  is the base URL for the two hostnames \<^verbatim>\<open>localhost\<close> and \<^verbatim>\<open>127.0.0.1\<close>, which are
  loopback hostnames, and with it the WebSocket URL is \<^verbatim>\<open>ws://localhost:8000\<close>. Every
  other hostname gets the production origin, and with it the WebSocket URL
  \<^verbatim>\<open>wss://willis-stock-genie-api.onrender.com\<close>. So a hostname that gets the local origin is
  a loopback hostname. The WebSocket URL is the base URL with \<^verbatim>\<open>http\<close> replaced by \<^verbatim>\<open>ws\<close>
  and \<^verbatim>\<open>https\<close> by \<^verbatim>\<open>wss\<close>, the host unchanged; this holds for the two origins and for
  every host.
\<close>

theorem C7_base_url_resolution:
  "(hostname = js ''localhost'' \<or> hostname = js ''127.0.0.1'' \<longrightarrow>
      loopback_hostname hostname
      \<and> getBaseUrl hostname = js ''http://'' @ js ''localhost:8000''
      \<and> getWebSocketUrl hostname = js ''ws://'' @ js ''localhost:8000'')
   \<and> (hostname \<noteq> js ''localhost'' \<and> hostname \<noteq> js ''127.0.0.1'' \<longrightarrow>
      getBaseUrl hostname = js ''https://'' @ js ''willis-stock-genie-api.onrender.com''
      \<and> getWebSocketUrl hostname = js ''wss://'' @ js ''willis-stock-genie-api.onrender.com'')
   \<and> (getBaseUrl hostname = js ''http://localhost:8000'' \<longrightarrow> loopback_hostname hostname)
   \<and> webSocketUrlOf (js ''http://'' @ host) = js ''ws://'' @ host
   \<and> webSocketUrlOf (js ''https://'' @ host) = js ''wss://'' @ host"
proof -
  have base: "getBaseUrl hostname =
     (if hostname = js ''localhost'' \<or> hostname = js ''127.0.0.1''
      then js ''http://'' @ js ''localhost:8000''
      else js ''https://'' @ js ''willis-stock-genie-api.onrender.com'')"
    by (simp add: getBaseUrl_def js_def)
  have ws: "getWebSocketUrl hostname =
     (if hostname = js ''localhost'' \<or> hostname = js ''127.0.0.1''
      then js ''ws://'' @ js ''localhost:8000''
      else js ''wss://'' @ js ''willis-stock-genie-api.onrender.com'')"
    unfolding getWebSocketUrl_def base
    by (simp only: webSocketUrlOf_http webSocketUrlOf_https if_distrib[of webSocketUrlOf]
        cong: if_cong)
  have two: "hostname = js ''localhost'' \<or> hostname = js ''127.0.0.1'' \<Longrightarrow>
      loopback_hostname hostname"
    using loopback_the_two by blast
  have local: "getBaseUrl hostname = js ''http://localhost:8000'' \<Longrightarrow>
      hostname = js ''localhost'' \<or> hostname = js ''127.0.0.1''"
    by (simp add: getBaseUrl_def js_def split: if_splits)
  show ?thesis
    using base ws two local webSocketUrlOf_http webSocketUrlOf_https by presburger
qed

theorem C7_witness:
  "getBaseUrl (js ''127.0.0.1'') = js ''http://localhost:8000''
   \<and> getWebSocketUrl (js ''127.0.0.1'') = js ''ws://localhost:8000''
   \<and> loopback_hostname (js ''127.0.0.1'')
   \<and> getBaseUrl (js ''stock.example.org'') = js ''https://willis-stock-genie-api.onrender.com''
   \<and> getWebSocketUrl (js ''stock.example.org'') = js ''wss://willis-stock-genie-api.onrender.com''"
  using C7_base_url_resolution [of "js ''127.0.0.1''"]
    C7_base_url_resolution [of "js ''stock.example.org''"]
  by (simp add: js_def)

text \<open>
  The claim as stated fails: \<^verbatim>\<open>[::1]\<close> and \<^verbatim>\<open>127.0.0.2\<close> are loopback hostnames, and a
  page served from either gets the production origin, not the local one.
\<close>

theorem C7_counterexample:
  "loopback_hostname (js ''[::1]'')
   \<and> getBaseUrl (js ''[::1]'') = js ''https://willis-stock-genie-api.onrender.com''
   \<and> getBaseUrl (js ''[::1]'') \<noteq> js ''http://localhost:8000''
   \<and> loopback_hostname (js ''127.0.0.2'')
   \<and> getBaseUrl (js ''127.0.0.2'') = js ''https://willis-stock-genie-api.onrender.com''
   \<and> getBaseUrl (js ''127.0.0.2'') \<noteq> js ''http://localhost:8000''"
  by (simp add: loopback_defs getBaseUrl_def)

section \<open>The format of a stock code\<close>

lemma rep_rests_digit_set:
  "set (rep_rests Digit lo hi s) =
     {drop n s | n. lo \<le> n \<and> n \<le> hi \<and> n \<le> length s \<and> list_all is_digit (take n s)}"
proof (induction s arbitrary: lo hi)
  case Nil
  then show ?case by auto
next
  case (Cons c cs)
  show ?case
  proof (rule set_eqI, rule iffI)
    fix r assume "r \<in> set (rep_rests Digit lo hi (c # cs))"
    then consider (longer) "0 < hi" "is_digit c" "r \<in> set (rep_rests Digit (lo - 1) (hi - 1) cs)"
      | (stop) "lo = 0" "r = c # cs"
      by (auto simp: is_digit_def split: if_splits)
    then show "r \<in> {drop n (c # cs) | n. lo \<le> n \<and> n \<le> hi \<and> n \<le> length (c # cs)
                      \<and> list_all is_digit (take n (c # cs))}"
    proof cases
      case longer
      then obtain n where n: "r = drop n cs" "lo - 1 \<le> n" "n \<le> hi - 1" "n \<le> length cs"
          "list_all is_digit (take n cs)"
        unfolding Cons.IH by auto
      show ?thesis
        apply (rule CollectI, rule exI[of _ "Suc n"])
        using n longer by auto
    next
      case stop
      show ?thesis
        apply (rule CollectI, rule exI[of _ 0])
        using stop by auto
    qed
  next
    fix r assume "r \<in> {drop n (c # cs) | n. lo \<le> n \<and> n \<le> hi \<and> n \<le> length (c # cs)
                      \<and> list_all is_digit (take n (c # cs))}"
    then obtain n where n: "r = drop n (c # cs)" "lo \<le> n" "n \<le> hi" "n \<le> length (c # cs)"
        "list_all is_digit (take n (c # cs))"
      by auto
    show "r \<in> set (rep_rests Digit lo hi (c # cs))"
    proof (cases n)
      case 0
      then show ?thesis using n by simp
    next
      case (Suc m)
      then have "drop m cs \<in> set (rep_rests Digit (lo - 1) (hi - 1) cs)"
        unfolding Cons.IH using n by auto
      then show ?thesis using n Suc by (auto simp: is_digit_def)
    qed
  qed
qed

lemma isValidFormat_iff: "isValidFormat c \<longleftrightarrow> four_to_six_digits c"
proof -
  have "isValidFormat c \<longleftrightarrow> [] \<in> set (rep_rests Digit 4 6 c)"
    by (auto simp: isValidFormat_def regex_test_def regex_exec_def stock_code_regex_def
        find_None_iff)
  also have "\<dots> \<longleftrightarrow> (\<exists>n. 4 \<le> n \<and> n \<le> 6 \<and> n \<le> length c \<and> list_all is_digit (take n c)
                       \<and> drop n c = [])"
    unfolding rep_rests_digit_set by auto
  also have "\<dots> \<longleftrightarrow> four_to_six_digits c"
    unfolding four_to_six_digits_def
    by (metis drop_eq_Nil le_antisym order_refl take_all drop_all)
  finally show ?thesis .
qed

lemma validateInput_marks:
  "stockCode_is_valid (validateInput v s) = isValidFormat (trim v)"
  "stockCode_is_invalid (validateInput v s) = (trim v \<noteq> [] \<and> \<not> isValidFormat (trim v))"
  "stockInfo (validateInput v s) =
     (if trim v = [] then Info_Empty
      else if isValidFormat (trim v) then Info_Success V_FormatOk else Info_Error V_BadFormat)"
  by (auto simp: validateInput_def Let_def clearValidationError_def showValidationError_def
      showValidationSuccess_def isValidFormat_def regex_test_def regex_exec_def
      stock_code_regex_def)

text \<open>
  Claim C4. For every string \<open>c\<close> the format validator accepts \<open>c\<close> if and only if \<open>c\<close>
  consists of four to six decimal digits, which is what matching \<^verbatim>\<open>^\d{4,6}$\<close> means:
  \<^verbatim>\<open>2330\<close> is accepted, \<^verbatim>\<open>AB12\<close>, \<^verbatim>\<open>12\<close> and \<^verbatim>\<open>1234567\<close> are rejected. The handler of
  keystrokes, \<open>validateInput\<close>, applies the same predicate to the trimmed value: it marks
  the field valid exactly when the trimmed value is accepted, and invalid exactly when
  the trimmed value is not empty and not accepted.
\<close>

theorem C4_format_validator:
  "(isValidFormat c \<longleftrightarrow> four_to_six_digits c)
   \<and> isValidFormat (js ''2330'') \<and> \<not> isValidFormat (js ''AB12'')
   \<and> \<not> isValidFormat (js ''12'') \<and> \<not> isValidFormat (js ''1234567'')
   \<and> (stockCode_is_valid (validateInput v s) \<longleftrightarrow> isValidFormat (trim v))
   \<and> (stockCode_is_invalid (validateInput v s) \<longleftrightarrow> trim v \<noteq> [] \<and> \<not> isValidFormat (trim v))
   \<and> stockInfo (validateInput v s) =
       (if trim v = [] then Info_Empty
        else if isValidFormat (trim v) then Info_Success V_FormatOk
        else Info_Error V_BadFormat)"
proof -
  have examples: "isValidFormat (js ''2330'')" "\<not> isValidFormat (js ''AB12'')"
      "\<not> isValidFormat (js ''12'')" "\<not> isValidFormat (js ''1234567'')"
    by (simp_all add: isValidFormat_iff four_to_six_digits_def is_digit_def js_def)
  show ?thesis
    using isValidFormat_iff[of c] examples validateInput_marks[of v s] by simp
qed

theorem C4_witness:
  "isValidFormat (js ''008800'') \<and> four_to_six_digits (js ''008800'')
   \<and> stockCode_is_valid (validateInput (js '' 2330 '') (init (\<lambda>n. 0)))
   \<and> stockCode_is_invalid (validateInput (js '' 23a0'') (init (\<lambda>n. 0)))"
  using C4_format_validator [of "js ''008800''" "js '' 2330 ''" "init (\<lambda>n. 0)"]
    C4_format_validator [of "js ''008800''" "js '' 23a0''" "init (\<lambda>n. 0)"]
  by (simp add: four_to_six_digits_def is_digit_def js_def trim_def is_js_space_def
      isValidFormat_def regex_test_def regex_exec_def stock_code_regex_def)

section \<open>The progress bar stays in range\<close>

lemma setProgress_eq:
  "setProgress p t s =
     s\<lparr>progressBar_width := max 0 (min p 100),
       progressPercent := Math_round (max 0 (min p 100)),
       progressText := (case t of None \<Rightarrow> progressText s | Some x \<Rightarrow> x)\<rparr>"
  by (simp add: setProgress_def Let_def split: option.splits)

lemma Math_round_nonneg: "0 \<le> x \<Longrightarrow> 0 \<le> Math_round x"
  by (simp add: Math_round_def)

lemma Math_round_le_100: "x \<le> 100 \<Longrightarrow> Math_round x \<le> 100"
  unfolding Math_round_def by linarith

lemmas pr_simps = progress_in_range_def setProgress_eq Math_round_nonneg Math_round_le_100
  showToast_def setTimeout_def clearTimeout_def ws_send_def Let_def

lemma pr_setProgress: "progress_in_range (setProgress p t s)"
  by (simp add: pr_simps)

lemma pr_showAnalysisResults: "progress_in_range s \<Longrightarrow> progress_in_range (showAnalysisResults s)"
  by (simp add: showAnalysisResults_def pr_simps)

lemma pr_updateProgressBar: "progress_in_range (updateProgressBar s)"
  by (simp add: updateProgressBar_def pr_simps)

lemma pr_handleAgentProgress:
  "progress_in_range s \<Longrightarrow> progress_in_range (handleAgentProgress a st m s)"
  using pr_updateProgressBar
  by (auto simp: handleAgentProgress_def progress_in_range_def split: option.splits)

lemma pr_handleBattleResults:
  "progress_in_range s \<Longrightarrow> progress_in_range (handleBattleResults fd vc s)"
  by (simp add: handleBattleResults_def showAnalysisResults_def pr_simps)

lemma pr_handleAnalysisComplete:
  "progress_in_range s \<Longrightarrow> progress_in_range (handleAnalysisComplete r s)"
  by (simp add: handleAnalysisComplete_def showAnalysisResults_def enableAnalysisButton_def
      pr_simps split: option.splits)

lemma pr_handleValidationResult:
  "progress_in_range s \<Longrightarrow> progress_in_range (handleValidationResult v i m s)"
  by (simp add: handleValidationResult_def showValidationSuccess_def showValidationError_def
      pr_simps split: option.splits)

lemma pr_handlePhaseCompleted:
  "progress_in_range s \<Longrightarrow> progress_in_range (handlePhaseCompleted ph m s)"
  by (simp add: handlePhaseCompleted_def pr_simps split: option.splits)

lemma pr_handleWebSocketMessage:
  assumes "progress_in_range s"
  shows "progress_in_range (handleWebSocketMessage m s)"
  using assms
proof (cases m)
  case (AgentProgress a st t)
  then show ?thesis using pr_handleAgentProgress assms by simp
qed (simp_all add: pr_handleValidationResult pr_handlePhaseCompleted pr_handleBattleResults
      pr_handleAnalysisComplete,
     simp_all add: handleAnalysisStarted_def handlePhaseStarted_def handleBattleStarted_def
      enableAnalysisButton_def pr_simps)

lemma pr_processNextAgent:
  "progress_in_range s \<Longrightarrow> progress_in_range (processNextAgent i s)"
  by (simp add: processNextAgent_def pr_simps split: option.splits)

lemma pr_resetProgress: "progress_in_range (resetProgress s)"
  by (simp add: resetProgress_def pr_simps)

lemma pr_startAnalysis:
  "progress_in_range s \<Longrightarrow> progress_in_range (startAnalysis s)"
proof -
  assume a: "progress_in_range s"
  have frame: "\<And>u. progress_in_range u \<Longrightarrow> progress_in_range (showToast T_OfflineDemo u)"
    "\<And>u c. progress_in_range u \<Longrightarrow>
       progress_in_range (setTimeout (SendStartAnalysis c) 100 (sendApiConfigToBackend u))"
    by (simp_all add: sendApiConfigToBackend_def pr_simps)
  show ?thesis
    using a frame pr_resetProgress pr_processNextAgent
    by (simp add: startAnalysis_def simulateAnalysis_def Let_def showValidationError_def
        progress_in_range_def)
qed

lemma pr_user_event:
  assumes "progress_in_range s"
  shows "progress_in_range (user_event a s)"
  using assms
proof (cases a)
  case SubmitForm
  then show ?thesis using pr_startAnalysis assms by simp
next
  case ClickRetry
  from assms have "progress_in_range (showToast T_Retrying s)" by (simp add: pr_simps)
  then show ?thesis using ClickRetry pr_startAnalysis assms
    by (simp add: retryAnalysis_def split: option.splits)
qed (simp_all add: validateInput_def clearValidationError_def showValidationError_def
      showValidationSuccess_def validateStockCode_def useMockValidation_def cancelAnalysis_def
      enableAnalysisButton_def pr_simps)

lemma pr_socket_handler: "progress_in_range s \<Longrightarrow> progress_in_range (socket_handler e s)"
  by (cases e) (simp_all add: pr_simps)

lemma pr_run_cb:
  assumes "progress_in_range s"
  shows "progress_in_range (run_cb c s)"
  using assms
proof (cases c)
  case (SimAgentDone g a i)
  show ?thesis unfolding SimAgentDone run_cb.simps simAgentDone_callback_def Let_def
    by (rule pr_processNextAgent) (rule pr_setProgress)
qed (simp_all add: tryLoadLatestReport_def enableAnalysisButton_def mockValidation_callback_def
      showValidationSuccess_def showValidationError_def sendStartAnalysis_callback_def
      simulateBattlePhase_def simReport_callback_def simFinish_callback_def
      showAnalysisResults_def showResultCard_callback_def loadRealResults_def
      loadMockResults_def displayBattleResults_def pr_simps
      split: option.splits readyState.splits)

lemma run_until_invariant:
  assumes "P s"
    and "\<And>(t::timer) u. P u \<Longrightarrow> P (fire t u)"
    and "\<And>u T. P u \<Longrightarrow> P (u\<lparr>now := T\<rparr>)"
  shows "P (run_until target s)"
  using assms(1)
proof (induction target s rule: run_until.induct)
  case (1 target s)
  show ?case
  proof (cases "next_due target s")
    case None
    then show ?thesis using 1(2) assms(3) by (simp del: run_until.simps add: run_until.simps[of target s])
  next
    case (Some t)
    then show ?thesis using 1 assms(2) by (simp del: run_until.simps add: run_until.simps[of target s])
  qed
qed

lemma pr_step:
  assumes a: "progress_in_range s"
  shows "progress_in_range (step e s)"
  using assms
proof (cases e)
  case (Elapse d)
  have "progress_in_range (run_until (now s + d) s)"
  proof (rule run_until_invariant[where P = progress_in_range, OF a])
    fix t :: timer and u assume "progress_in_range u"
    then have "progress_in_range (u\<lparr>timers := filter (\<lambda>x. tid x \<noteq> tid t) (timers u), now := max (now u) (due t)\<rparr>)"
      by (simp add: progress_in_range_def)
    then show "progress_in_range (fire t u)" unfolding fire_def by (rule pr_run_cb)
  next
    fix u T assume "progress_in_range u"
    then show "progress_in_range (u\<lparr>now := T\<rparr>)" by (simp add: progress_in_range_def)
  qed
  then show ?thesis using Elapse by simp
qed (simp_all add: pr_handleWebSocketMessage pr_user_event pr_socket_handler)

lemma pr_run: "progress_in_range s \<Longrightarrow> progress_in_range (run evs s)"
  by (induction evs arbitrary: s) (simp_all add: pr_step)

text \<open>
  Claim C10. For every real percentage, negative ones and ones above 100 among them,
  \<open>setProgress\<close> sets the width of the progress bar to the percentage clamped into
  \<open>[0, 100]\<close> and the displayed number to that width rounded, so both lie between 0 and
  100; and after every sequence of events (messages, user actions, socket events, passing
  time) from the start of the page, the width and the displayed number lie between 0 and
  100.
\<close>

theorem C10_progress_clamped:
  "progressBar_width (setProgress p t s) = max 0 (min p 100)
   \<and> 0 \<le> progressBar_width (setProgress p t s)
   \<and> progressBar_width (setProgress p t s) \<le> 100
   \<and> progressPercent (setProgress p t s) = Math_round (progressBar_width (setProgress p t s))
   \<and> 0 \<le> progressPercent (setProgress p t s)
   \<and> progressPercent (setProgress p t s) \<le> 100
   \<and> progress_in_range (run evs (init rnd))"
proof -
  have "progress_in_range (init rnd)"
    by (simp add: progress_in_range_def init_def)
  then have "progress_in_range (run evs (init rnd))"
    by (rule pr_run)
  moreover have "progress_in_range (setProgress p t s)"
    by (rule pr_setProgress)
  ultimately show ?thesis
    by (simp add: progress_in_range_def) (simp add: setProgress_eq)
qed

theorem C10_witness:
  "progressBar_width (setProgress (- 5) None (init (\<lambda>n. 0))) = 0
   \<and> progressBar_width (setProgress 250 None (init (\<lambda>n. 0))) = 100
   \<and> progressPercent (setProgress (33 / 2) None (init (\<lambda>n. 0))) = 17"
proof -
  have low: "progressBar_width (setProgress (- 5) None (init (\<lambda>n. 0))) = max 0 (min (- 5) 100)"
    using C10_progress_clamped [of "- 5" None "init (\<lambda>n. 0)" "[]" "\<lambda>n. 0"] by blast
  have high: "progressBar_width (setProgress 250 None (init (\<lambda>n. 0))) = max 0 (min 250 100)"
    using C10_progress_clamped [of 250 None "init (\<lambda>n. 0)" "[]" "\<lambda>n. 0"] by blast
  have "progressPercent (setProgress (33 / 2) None (init (\<lambda>n. 0)))
          = Math_round (progressBar_width (setProgress (33 / 2) None (init (\<lambda>n. 0))))"
    and "progressBar_width (setProgress (33 / 2) None (init (\<lambda>n. 0))) = max 0 (min (33 / 2) 100)"
    using C10_progress_clamped [of "33 / 2" None "init (\<lambda>n. 0)" "[]" "\<lambda>n. 0"] by blast+
  then have mid: "progressPercent (setProgress (33 / 2) None (init (\<lambda>n. 0))) = 17"
    by (simp add: Math_round_def)
  show ?thesis using low high mid by simp
qed

section \<open>Unfolding the handlers\<close>

lemmas handler_defs =
  handleValidationResult_def handleAnalysisStarted_def handlePhaseStarted_def
  handlePhaseCompleted_def handleAgentProgress_def updateProgressBar_def completedAgents_def
  handleBattleStarted_def handleBattleResults_def handleAnalysisComplete_def
  showAnalysisResults_def tryLoadLatestReport_def
  validateInput_def validateStockCode_def useMockValidation_def mockValidation_callback_def
  startAnalysis_def resetProgress_def simulateAnalysis_def processNextAgent_def
  simAgentDone_callback_def simulateBattlePhase_def simReport_callback_def
  simFinish_callback_def sendStartAnalysis_callback_def sendApiConfigToBackend_def
  retryAnalysis_def cancelAnalysis_def showResultCard_callback_def loadRealResults_def
  loadMockResults_def displayBattleResults_def
  showValidationError_def showValidationSuccess_def clearValidationError_def
  disableAnalysisButton_def enableAnalysisButton_def
  setProgress_eq showToast_def setTimeout_def clearTimeout_def ws_send_def ws_is_open_def
  has_keys_def empty_results_def text_or_def render_stock_def Let_def

lemmas data_defs =
  js_def trim_def is_js_space_def isValidFormat_def regex_test_def regex_exec_def
  stock_code_regex_def agents_def sim_agents_def init_def

lemmas timer_defs = run_until.simps next_due_def fire_def

section \<open>Agent cards\<close>

lemma map_of_set_card:
  "map_of (set_card k c cs) k' =
     (if k' = k \<and> map_of cs k \<noteq> None then Some c else map_of cs k')"
  by (induction cs) auto

lemma length_set_card: "length (set_card k c cs) = length cs"
  by (induction cs) auto

lemma map_fst_set_card: "map fst (set_card k c cs) = map fst cs"
  by (induction cs) auto

lemma completed_count_le: "length (filter (\<lambda>(k, c). completed c) cs) \<le> length cs"
  by (rule length_filter_le)

section \<open>The percentage after a completed agent\<close>

lemma six_cards_lookup:
  assumes "six_cards s" "agent \<in> set sim_agents"
  shows "\<exists>c. map_of (cards s) agent = Some c"
proof -
  from assms have "agent \<in> fst ` set (cards s)"
    by (metis six_cards_def set_map)
  then show ?thesis by (metis map_of_eq_None_iff not_None_eq)
qed

lemma updateProgressBar_exact:
  assumes "length (cards s) = 6"
  shows "progressBar_width (updateProgressBar s) = real (completedAgents s) / 6 * 100"
    and "progressPercent (updateProgressBar s) = Math_round (real (completedAgents s) / 6 * 100)"
    and "completedAgents (updateProgressBar s) = completedAgents s"
proof -
  have "completedAgents s \<le> 6"
    using completed_count_le[of "cards s"] assms by (simp add: completedAgents_def)
  then have "real (completedAgents s) / 6 * 100 \<le> 100" by simp
  moreover have "0 \<le> real (completedAgents s) / 6 * 100" by simp
  ultimately have clamp: "max 0 (min (real (completedAgents s) / 6 * 100) 100)
      = real (completedAgents s) / 6 * 100" by simp
  show "progressBar_width (updateProgressBar s) = real (completedAgents s) / 6 * 100"
    using clamp by (simp add: updateProgressBar_def setProgress_eq Let_def)
  show "progressPercent (updateProgressBar s) = Math_round (real (completedAgents s) / 6 * 100)"
    using clamp by (simp add: updateProgressBar_def setProgress_eq Let_def)
  show "completedAgents (updateProgressBar s) = completedAgents s"
    by (simp add: updateProgressBar_def setProgress_eq Let_def completedAgents_def)
qed

lemma handleAgentProgress_no_card:
  assumes "agent = js ''all'' \<or> map_of (cards s) agent = None"
  shows "progressBar_width (handleAgentProgress agent st m s) = progressBar_width s"
    and "progressPercent (handleAgentProgress agent st m s) = progressPercent s"
    and "cards (handleAgentProgress agent st m s) = cards s"
  using assms by (auto simp: handleAgentProgress_def)

text \<open>
  Claim C6, as amended. On a page holding the six agent cards, after an
  \<open>agent_progress\<close> event with status \<open>completed\<close> for one of the six agents the width of
  the progress bar is \<open>completedAgents / 6 * 100\<close> and the displayed number is that
  rounded, where \<open>completedAgents\<close>, between 1 and 6, counts the cards now in the
  completed state. An event with status \<open>completed\<close> for the agent \<open>all\<close>, or for an agent
  without a card, leaves the percentage and the cards as they were.
\<close>

theorem C6_progress_after_completed:
  "(six_cards s \<and> agent \<in> set sim_agents \<longrightarrow>
      progressBar_width (handleAgentProgress agent (js ''completed'') m s)
        = real (completedAgents (handleAgentProgress agent (js ''completed'') m s)) / 6 * 100
      \<and> progressPercent (handleAgentProgress agent (js ''completed'') m s)
        = Math_round (real (completedAgents (handleAgentProgress agent (js ''completed'') m s)) / 6 * 100)
      \<and> 1 \<le> completedAgents (handleAgentProgress agent (js ''completed'') m s)
      \<and> completedAgents (handleAgentProgress agent (js ''completed'') m s) \<le> 6
      \<and> agent_status_of (handleAgentProgress agent (js ''completed'') m s) agent = Some Completed
      \<and> six_cards (handleAgentProgress agent (js ''completed'') m s))
   \<and> (other = js ''all'' \<or> map_of (cards s) other = None \<longrightarrow>
      progressBar_width (handleAgentProgress other (js ''completed'') m s) = progressBar_width s
      \<and> progressPercent (handleAgentProgress other (js ''completed'') m s) = progressPercent s
      \<and> completedAgents (handleAgentProgress other (js ''completed'') m s) = completedAgents s)"
proof (intro conjI impI)
  assume "other = js ''all'' \<or> map_of (cards s) other = None"
  note u = handleAgentProgress_no_card[OF this, of "js ''completed''" m]
  show "progressBar_width (handleAgentProgress other (js ''completed'') m s) = progressBar_width s"
    and "progressPercent (handleAgentProgress other (js ''completed'') m s) = progressPercent s"
    and "completedAgents (handleAgentProgress other (js ''completed'') m s) = completedAgents s"
    using u by (simp_all add: completedAgents_def)
next
  assume a: "six_cards s \<and> agent \<in> set sim_agents"
  from six_cards_lookup[of s agent] a obtain c where c: "map_of (cards s) agent = Some c"
    by blast
  have not_all: "agent \<noteq> js ''all''"
    using a by (auto simp: sim_agents_def js_def)
  define c' where "c' = c\<lparr>active := False, completed := True, status_text := St_Done\<rparr>"
  define s1 where "s1 = s\<lparr>cards := set_card agent c' (cards s)\<rparr>"
  have h: "handleAgentProgress agent (js ''completed'') m s = updateProgressBar s1"
    using c not_all by (simp add: handleAgentProgress_def s1_def c'_def js_def)
  have len: "length (cards s1) = 6"
    using a by (simp add: s1_def length_set_card six_cards_def sim_agents_def
        flip: length_map[of fst "cards s"])
  have cards_same: "cards (updateProgressBar s1) = cards s1"
    by (simp add: updateProgressBar_def setProgress_eq Let_def)
  have found: "map_of (cards s1) agent = Some c'"
    using c by (simp add: s1_def map_of_set_card)
  then have st: "agent_status_of (updateProgressBar s1) agent = Some Completed"
    by (simp add: agent_status_of_def cards_same c'_def record_status_def)
  have "map fst (cards s1) = sim_agents"
    using a by (simp add: six_cards_def s1_def map_fst_set_card)
  then have six: "six_cards (updateProgressBar s1)"
    by (simp add: six_cards_def cards_same)
  have le: "completedAgents (updateProgressBar s1) \<le> 6"
    using completed_count_le[of "cards s1"] len
    unfolding completedAgents_def cards_same by simp
  from found have "(agent, c') \<in> set (cards s1)" by (rule map_of_SomeD)
  then have "(agent, c') \<in> set (filter (\<lambda>(k, c). completed c) (cards s1))"
    by (simp add: c'_def)
  then have "filter (\<lambda>(k, c). completed c) (cards s1) \<noteq> []"
    by (auto simp: filter_empty_conv)
  then have ge: "1 \<le> completedAgents (updateProgressBar s1)"
    unfolding completedAgents_def cards_same by (simp add: Suc_le_eq)
  show "progressBar_width (handleAgentProgress agent (js ''completed'') m s)
        = real (completedAgents (handleAgentProgress agent (js ''completed'') m s)) / 6 * 100"
    and "progressPercent (handleAgentProgress agent (js ''completed'') m s)
        = Math_round (real (completedAgents (handleAgentProgress agent (js ''completed'') m s)) / 6 * 100)"
    and "1 \<le> completedAgents (handleAgentProgress agent (js ''completed'') m s)"
    and "completedAgents (handleAgentProgress agent (js ''completed'') m s) \<le> 6"
    and "agent_status_of (handleAgentProgress agent (js ''completed'') m s) agent = Some Completed"
    and "six_cards (handleAgentProgress agent (js ''completed'') m s)"
    unfolding h using updateProgressBar_exact[OF len] st six le ge by simp_all
qed

theorem C6_witness:
  "six_cards page_after_start \<and> js ''risk'' \<in> set sim_agents
   \<and> map_of (cards page_after_start) (js ''everyone'') = None
   \<and> progressBar_width (handleAgentProgress (js ''risk'') (js ''completed'') [] page_after_start)
       = 100 / 6
   \<and> progressPercent (handleAgentProgress (js ''risk'') (js ''completed'') [] page_after_start)
       = 17
   \<and> progressBar_width (handleAgentProgress (js ''everyone'') (js ''completed'') [] page_after_start)
       = 0"
proof -
  have six: "six_cards page_after_start"
    by (simp add: page_after_start_def six_cards_def handler_defs data_defs)
  have mem: "js ''risk'' \<in> set sim_agents"
    by (simp add: data_defs)
  have none: "map_of (cards page_after_start) (js ''everyone'') = None"
    by (simp add: page_after_start_def handler_defs data_defs)
  have n: "completedAgents (handleAgentProgress (js ''risk'') (js ''completed'') [] page_after_start) = 1"
    by (simp add: page_after_start_def handler_defs data_defs)
  have w0: "progressBar_width page_after_start = 0"
    by (simp add: page_after_start_def handler_defs data_defs)
  show ?thesis
    using C6_progress_after_completed [of page_after_start "js ''risk''" "[]" "js ''everyone''"]
      six mem n none w0
    by (simp add: Math_round_def)
qed

text \<open>
  The claim as stated fails: in a run on an open socket, after \<open>battle_started\<close> has set
  the bar to 80, an \<open>agent_progress\<close> event with status \<open>completed\<close> for the agent \<open>all\<close>
  leaves it at 80, while no card is completed.
\<close>

theorem C6_counterexample:
  "progressBar_width
     (run [Receive BattleStarted, Receive (AgentProgress (js ''all'') (js ''completed'') [])]
        online_run) = 80
   \<and> real (completedAgents
       (run [Receive BattleStarted, Receive (AgentProgress (js ''all'') (js ''completed'') [])]
          online_run)) / 6 * 100 = 0"
  by (simp add: online_run_def no_random_def handler_defs data_defs)

section \<open>The status of an agent under progress messages\<close>

lemma cards_updateProgressBar: "cards (updateProgressBar s) = cards s"
  by (simp add: updateProgressBar_def setProgress_eq Let_def)

lemma lookup_handleAgentProgress:
  "map_of (cards (handleAgentProgress a st m s)) b =
     (if a \<noteq> js ''all'' \<and> a = b \<and> st = js ''started''
        then map_option (\<lambda>c. c\<lparr>active := True, completed := False, status_text := St_Analyzing\<rparr>)
               (map_of (cards s) b)
      else if a \<noteq> js ''all'' \<and> a = b \<and> st = js ''completed''
        then map_option (\<lambda>c. c\<lparr>active := False, completed := True, status_text := St_Done\<rparr>)
               (map_of (cards s) b)
      else map_of (cards s) b)"
  by (cases "map_of (cards s) a")
     (auto simp: handleAgentProgress_def map_of_set_card cards_updateProgressBar js_def)

lemma status_handleAgentProgress:
  "agent_status_of (handleAgentProgress a st m s) b =
     (if a \<noteq> js ''all'' \<and> a = b \<and> agent_status_of s b \<noteq> None \<and> st = js ''started''
        then Some Started
      else if a \<noteq> js ''all'' \<and> a = b \<and> agent_status_of s b \<noteq> None \<and> st = js ''completed''
        then Some Completed
      else agent_status_of s b)"
proof (cases "map_of (cards s) b")
  case None
  then show ?thesis
    by (simp add: agent_status_of_def lookup_handleAgentProgress cong: conj_cong)
next
  case (Some c)
  then show ?thesis
    by (simp add: agent_status_of_def lookup_handleAgentProgress record_status_def
        cong: conj_cong)
qed

lemma run_agent_progress_Cons:
  "run (agent_progress_events ((a, st, m) # ms)) s
     = run (agent_progress_events ms) (handleAgentProgress a st m s)"
  by (simp add: agent_progress_events_def)

lemma never_back_to_waiting:
  "agent_status_of s b = Some Started \<or> agent_status_of s b = Some Completed \<Longrightarrow>
   agent_status_of (run (agent_progress_events ms) s) b = Some Started
   \<or> agent_status_of (run (agent_progress_events ms) s) b = Some Completed"
proof (induction ms arbitrary: s)
  case Nil
  then show ?case by (simp add: agent_progress_events_def)
next
  case (Cons x ms)
  obtain a st m where x: "x = (a, st, m)" by (cases x)
  have "agent_status_of (handleAgentProgress a st m s) b = Some Started
        \<or> agent_status_of (handleAgentProgress a st m s) b = Some Completed"
    using Cons.prems by (auto simp: status_handleAgentProgress)
  from Cons.IH[OF this] show ?case
    unfolding x run_agent_progress_Cons .
qed

lemma completed_stays:
  "agent_status_of s b = Some Completed \<Longrightarrow>
   list_all (\<lambda>(a, st, m). \<not> (a = b \<and> st = js ''started'')) ms \<Longrightarrow>
   agent_status_of (run (agent_progress_events ms) s) b = Some Completed"
proof (induction ms arbitrary: s)
  case Nil
  then show ?case by (simp add: agent_progress_events_def)
next
  case (Cons x ms)
  obtain a st m where x: "x = (a, st, m)" by (cases x)
  have "agent_status_of (handleAgentProgress a st m s) b = Some Completed"
    using Cons.prems x by (auto simp: status_handleAgentProgress)
  moreover have "list_all (\<lambda>(a, st, m). \<not> (a = b \<and> st = js ''started'')) ms"
    using Cons.prems by simp
  ultimately show ?case
    unfolding x run_agent_progress_Cons by (rule Cons.IH)
qed

text \<open>
  Claim C3, as amended. Under every sequence of \<open>agent_progress\<close> messages a record that
  is started or completed never returns to waiting, and a record that is completed stays
  completed as long as no message for that agent carries the status \<open>started\<close>. A message
  for an agent with a card sets the record to the status it carries: \<open>started\<close> makes it
  started, also when it was completed, and \<open>completed\<close> makes it completed.
\<close>

theorem C3_status_progression:
  "(agent_status_of s b = Some Started \<or> agent_status_of s b = Some Completed \<longrightarrow>
      agent_status_of (run (agent_progress_events ms) s) b = Some Started
      \<or> agent_status_of (run (agent_progress_events ms) s) b = Some Completed)
   \<and> (agent_status_of s b = Some Completed
        \<and> list_all (\<lambda>(a, st, m). \<not> (a = b \<and> st = js ''started'')) ms \<longrightarrow>
      agent_status_of (run (agent_progress_events ms) s) b = Some Completed)
   \<and> (agent_status_of s b \<noteq> None \<and> b \<noteq> js ''all'' \<longrightarrow>
      agent_status_of (handleAgentProgress b (js ''started'') m s) b = Some Started
      \<and> agent_status_of (handleAgentProgress b (js ''completed'') m s) b = Some Completed)"
  using never_back_to_waiting[of s b ms] completed_stays[of s b ms]
  by (auto simp: status_handleAgentProgress js_def)

theorem C3_witness:
  "agent_status_of risk_completed (js ''risk'') = Some Completed
   \<and> list_all (\<lambda>(a, st, m). \<not> (a = js ''risk'' \<and> st = js ''started''))
        [(js ''risk'', js ''completed'', []), (js ''technical'', js ''started'', [])]
   \<and> js ''risk'' \<noteq> js ''all''
   \<and> agent_status_of
        (run (agent_progress_events
           [(js ''risk'', js ''completed'', []), (js ''technical'', js ''started'', [])])
           risk_completed) (js ''risk'') = Some Completed
   \<and> agent_status_of (handleAgentProgress (js ''risk'') (js ''started'') [] risk_completed)
        (js ''risk'') = Some Started"
proof -
  have c: "agent_status_of risk_completed (js ''risk'') = Some Completed"
    by (simp add: risk_completed_def online_run_def no_random_def agent_status_of_def
        record_status_def handler_defs data_defs)
  have q: "list_all (\<lambda>(a, st, m). \<not> (a = js ''risk'' \<and> st = js ''started''))
        [(js ''risk'', js ''completed'', []), (js ''technical'', js ''started'', [])]"
    by (simp add: js_def)
  have n: "js ''risk'' \<noteq> js ''all''" by (simp add: js_def)
  show ?thesis
    using C3_status_progression [of risk_completed "js ''risk''"
        "[(js ''risk'', js ''completed'', []), (js ''technical'', js ''started'', [])]" "[]"]
      c q n by simp
qed

text \<open>
  The claim as stated fails: the record of \<open>risk\<close> is completed, and the message
  \<open>agent_progress\<close> with status \<open>started\<close> for \<open>risk\<close> returns it to started
  (\<open>handleAgentProgress\<close> removes the class \<open>completed\<close> from the card).
\<close>

theorem C3_counterexample:
  "agent_status_of risk_completed (js ''risk'') = Some Completed
   \<and> agent_status_of
        (run (agent_progress_events [(js ''risk'', js ''started'', [])]) risk_completed)
        (js ''risk'') = Some Started"
  by (simp add: risk_completed_def online_run_def no_random_def agent_status_of_def
      agent_progress_events_def record_status_def handler_defs data_defs)

section \<open>A new run re-arms the barrier\<close>

lemma resetProgress_clears:
  "barrier_flags_clear (resetProgress s)"
  "progressBar_width (resetProgress s) = 0"
  "progressPercent (resetProgress s) = 0"
  by (simp_all add: barrier_flags_clear_def resetProgress_def setProgress_eq Let_def
      Math_round_def)

lemma flags_processNextAgent:
  "barrier_flags_clear (processNextAgent i s) = barrier_flags_clear s"
  by (simp add: barrier_flags_clear_def processNextAgent_def setProgress_eq setTimeout_def
      Let_def split: option.splits)

lemma startAnalysis_valid:
  assumes "isValidFormat (trim (stockCode_value s))"
  shows "startAnalysis s =
     (let stockCode = trim (stockCode_value s);
          s4 = resetProgress
                 (setTimeout ScrollToProgress 100
                    ((disableAnalysisButton (s\<lparr>currentStock := Some stockCode\<rparr>))
                       \<lparr>progressCard_shown := True, resultCard_shown := False\<rparr>))
      in if ws_is_open s
         then setTimeout (SendStartAnalysis stockCode) 100 (sendApiConfigToBackend s4)
         else simulateAnalysis (showToast T_OfflineDemo s4))"
proof -
  from assms have "trim (stockCode_value s) \<noteq> []"
    by (auto simp: isValidFormat_def regex_test_def regex_exec_def stock_code_regex_def)
  then show ?thesis using assms
    by (simp add: startAnalysis_def isValidFormat_def Let_def ws_is_open_def resetProgress_def
        setProgress_eq setTimeout_def disableAnalysisButton_def)
qed

lemma startAnalysis_clears:
  assumes "isValidFormat (trim (stockCode_value s))"
  shows "barrier_flags_clear (startAnalysis s)"
    and "ws_is_open s \<Longrightarrow> progressBar_width (startAnalysis s) = 0"
    and "ws_is_open s \<Longrightarrow> progressPercent (startAnalysis s) = 0"
proof -
  have frame: "\<And>u c. barrier_flags_clear (setTimeout (SendStartAnalysis c) 100 (sendApiConfigToBackend u))
                 = barrier_flags_clear u"
    "\<And>u. barrier_flags_clear (showToast T_OfflineDemo u) = barrier_flags_clear u"
    by (simp_all add: barrier_flags_clear_def setTimeout_def sendApiConfigToBackend_def
        ws_send_def showToast_def)
  show "barrier_flags_clear (startAnalysis s)"
    unfolding startAnalysis_valid[OF assms] Let_def simulateAnalysis_def
    by (simp add: frame flags_processNextAgent resetProgress_clears)
  have frame2: "\<And>u c. progressBar_width (setTimeout (SendStartAnalysis c) 100 (sendApiConfigToBackend u))
                 = progressBar_width u"
    "\<And>u c. progressPercent (setTimeout (SendStartAnalysis c) 100 (sendApiConfigToBackend u))
                 = progressPercent u"
    by (simp_all add: setTimeout_def sendApiConfigToBackend_def ws_send_def)
  show "ws_is_open s \<Longrightarrow> progressBar_width (startAnalysis s) = 0"
    unfolding startAnalysis_valid[OF assms] Let_def
    by (simp add: frame2 resetProgress_clears)
  show "ws_is_open s \<Longrightarrow> progressPercent (startAnalysis s) = 0"
    unfolding startAnalysis_valid[OF assms] Let_def
    by (simp add: frame2 resetProgress_clears)
qed

lemma barrier_analysis_first:
  assumes "\<not> isBattleComplete a" "\<not> resultsDisplayed a"
  shows "resultsDisplayed (handleBattleResults fd vc (handleAnalysisComplete r a))"
    and "display_set_since (next_tid a) (handleBattleResults fd vc (handleAnalysisComplete r a))"
  using assms
  by (simp_all add: handleBattleResults_def handleAnalysisComplete_def showAnalysisResults_def
      display_set_since_def setProgress_eq showToast_def setTimeout_def clearTimeout_def
      enableAnalysisButton_def Let_def split: option.splits)

lemma barrier_battle_first:
  assumes "\<not> analysisCompleted a" "\<not> resultsDisplayed a"
  shows "resultsDisplayed (handleAnalysisComplete r (handleBattleResults fd vc a))"
    and "display_set_since (next_tid a) (handleAnalysisComplete r (handleBattleResults fd vc a))"
  using assms
  by (simp_all add: handleBattleResults_def handleAnalysisComplete_def showAnalysisResults_def
      display_set_since_def setProgress_eq showToast_def setTimeout_def clearTimeout_def
      enableAnalysisButton_def Let_def split: option.splits)

text \<open>
  Claim C9. \<open>resetProgress\<close> sets \<open>analysisCompleted\<close>, \<open>isBattleComplete\<close>,
  \<open>awaitingBattleCompletion\<close>, \<open>resultsDisplayed\<close>, \<open>analysisHasResults\<close> and
  \<open>pendingSuccessToast\<close> to false and the progress bar to 0. \<open>startAnalysis\<close> on a valid
  stock code goes through it, so after \<open>startAnalysis\<close> the six flags are false (and on an
  open socket the bar is at 0), whatever the state before; and then the two completion
  messages, in either order, set \<open>resultsDisplayed\<close> and a new timer that shows the
  result card, also when an earlier run had displayed its results.
\<close>

theorem C9_reset_rearms_barrier:
  "barrier_flags_clear (resetProgress s)
   \<and> progressBar_width (resetProgress s) = 0 \<and> progressPercent (resetProgress s) = 0
   \<and> (isValidFormat (trim (stockCode_value s)) \<longrightarrow>
        barrier_flags_clear (startAnalysis s)
        \<and> (ws_is_open s \<longrightarrow>
             progressBar_width (startAnalysis s) = 0 \<and> progressPercent (startAnalysis s) = 0)
        \<and> resultsDisplayed (handleBattleResults fd vc (handleAnalysisComplete r (startAnalysis s)))
        \<and> display_set_since (next_tid (startAnalysis s))
             (handleBattleResults fd vc (handleAnalysisComplete r (startAnalysis s)))
        \<and> resultsDisplayed (handleAnalysisComplete r (handleBattleResults fd vc (startAnalysis s)))
        \<and> display_set_since (next_tid (startAnalysis s))
             (handleAnalysisComplete r (handleBattleResults fd vc (startAnalysis s))))"
proof (intro conjI impI)
  show "barrier_flags_clear (resetProgress s)" "progressBar_width (resetProgress s) = 0"
    "progressPercent (resetProgress s) = 0"
    by (rule resetProgress_clears)+
next
  assume v: "isValidFormat (trim (stockCode_value s))"
  show c: "barrier_flags_clear (startAnalysis s)" by (rule startAnalysis_clears(1)[OF v])
  then have f: "\<not> isBattleComplete (startAnalysis s)" "\<not> resultsDisplayed (startAnalysis s)"
      "\<not> analysisCompleted (startAnalysis s)"
    by (simp_all add: barrier_flags_clear_def)
  show "resultsDisplayed (handleBattleResults fd vc (handleAnalysisComplete r (startAnalysis s)))"
    and "display_set_since (next_tid (startAnalysis s))
             (handleBattleResults fd vc (handleAnalysisComplete r (startAnalysis s)))"
    using barrier_analysis_first[OF f(1) f(2)] by blast+
  show "resultsDisplayed (handleAnalysisComplete r (handleBattleResults fd vc (startAnalysis s)))"
    and "display_set_since (next_tid (startAnalysis s))
             (handleAnalysisComplete r (handleBattleResults fd vc (startAnalysis s)))"
    using barrier_battle_first[OF f(3) f(2)] by blast+
  { assume "ws_is_open s"
    then show "progressBar_width (startAnalysis s) = 0" by (rule startAnalysis_clears(2)[OF v]) }
  { assume "ws_is_open s"
    then show "progressPercent (startAnalysis s) = 0" by (rule startAnalysis_clears(3)[OF v]) }
qed

theorem C9_witness:
  "resultsDisplayed after_first_run
   \<and> isValidFormat (trim (stockCode_value after_first_run)) \<and> ws_is_open after_first_run
   \<and> \<not> resultsDisplayed (startAnalysis after_first_run)
   \<and> progressBar_width (startAnalysis after_first_run) = 0
   \<and> resultsDisplayed
        (handleBattleResults (js ''bearish'') []
           (handleAnalysisComplete None (startAnalysis after_first_run)))"
proof -
  have d: "resultsDisplayed after_first_run"
    by (simp add: after_first_run_def online_run_def no_random_def handler_defs data_defs)
  have code: "stockCode_value after_first_run = js ''2330''"
    by (simp add: after_first_run_def online_run_def no_random_def handler_defs data_defs)
  have v: "isValidFormat (trim (stockCode_value after_first_run))"
    unfolding code by (simp add: data_defs)
  have w: "ws_is_open after_first_run"
    by (simp add: after_first_run_def online_run_def no_random_def handler_defs data_defs)
  show ?thesis
    using C9_reset_rearms_barrier [of after_first_run "js ''bearish''" "[]" None] d v w
    by (simp add: barrier_flags_clear_def)
qed

section \<open>The gates before a request\<close>

lemma startAnalysis_blocked:
  assumes "\<not> isValidFormat (trim (stockCode_value s))"
  shows "startAnalysis s =
     showValidationError (if trim (stockCode_value s) = [] then V_EnterCode else V_BadFormat) s"
  using assms by (simp add: startAnalysis_def isValidFormat_def Let_def)

text \<open>
  Claim C2, as amended. \<open>startAnalysis\<close> checks the trimmed stock code against
  \<^verbatim>\<open>^\d{4,6}$\<close> again: when the check fails it only shows the validation error, so that
  nothing is sent, no timer is set (neither the one that sends \<open>start_analysis\<close> nor one
  of the offline simulation) and no card changes. \<open>validateStockCode\<close> checks only that
  the trimmed code is not empty: an empty code is blocked with the validation error, every
  other code is submitted, as a \<open>validate_stock\<close> request on an open socket and to the
  offline lookup (one second later) otherwise.
\<close>

theorem C2_request_gates:
  "(\<not> isValidFormat (trim (stockCode_value s)) \<longrightarrow>
      startAnalysis s =
        showValidationError (if trim (stockCode_value s) = [] then V_EnterCode else V_BadFormat) s
      \<and> sent (startAnalysis s) = sent s \<and> timers (startAnalysis s) = timers s
      \<and> cards (startAnalysis s) = cards s
      \<and> stockCode_is_invalid (startAnalysis s))
   \<and> (trim (stockCode_value s) = [] \<longrightarrow>
      validateStockCode s = showValidationError V_EnterCode s
      \<and> sent (validateStockCode s) = sent s \<and> timers (validateStockCode s) = timers s
      \<and> stockCode_is_invalid (validateStockCode s))
   \<and> (trim (stockCode_value s) \<noteq> [] \<and> ws_is_open s \<longrightarrow>
      sent (validateStockCode s) = sent s @ [ValidateStock (trim (stockCode_value s))])
   \<and> (trim (stockCode_value s) \<noteq> [] \<and> \<not> ws_is_open s \<longrightarrow>
      sent (validateStockCode s) = sent s
      \<and> timers (validateStockCode s) =
          timers s @ [\<lparr>tid = next_tid s, due = now s + 1000,
                       cb = MockValidation (trim (stockCode_value s))\<rparr>])"
proof (intro conjI impI)
  assume "\<not> isValidFormat (trim (stockCode_value s))"
  note b = startAnalysis_blocked[OF this]
  show "startAnalysis s =
        showValidationError (if trim (stockCode_value s) = [] then V_EnterCode else V_BadFormat) s"
    by (rule b)
  show "sent (startAnalysis s) = sent s" "timers (startAnalysis s) = timers s"
    "cards (startAnalysis s) = cards s" "stockCode_is_invalid (startAnalysis s)"
    unfolding b by (simp_all add: showValidationError_def)
next
  assume e: "trim (stockCode_value s) = []"
  show v: "validateStockCode s = showValidationError V_EnterCode s"
    using e by (simp add: validateStockCode_def)
  show "sent (validateStockCode s) = sent s" "timers (validateStockCode s) = timers s"
    "stockCode_is_invalid (validateStockCode s)"
    unfolding v by (simp_all add: showValidationError_def)
next
  assume "trim (stockCode_value s) \<noteq> [] \<and> ws_is_open s"
  then show "sent (validateStockCode s) = sent s @ [ValidateStock (trim (stockCode_value s))]"
    by (simp add: validateStockCode_def Let_def ws_is_open_def showValidationSuccess_def
        setTimeout_def ws_send_def)
next
  assume a: "trim (stockCode_value s) \<noteq> [] \<and> \<not> ws_is_open s"
  then show "sent (validateStockCode s) = sent s"
    by (simp add: validateStockCode_def Let_def ws_is_open_def showValidationSuccess_def
        setTimeout_def useMockValidation_def)
  from a show "timers (validateStockCode s) =
          timers s @ [\<lparr>tid = next_tid s, due = now s + 1000,
                       cb = MockValidation (trim (stockCode_value s))\<rparr>]"
    by (simp add: validateStockCode_def Let_def ws_is_open_def showValidationSuccess_def
        setTimeout_def useMockValidation_def)
qed

theorem C2_witness:
  "\<not> isValidFormat (trim (stockCode_value typed_AB12_online))
   \<and> trim (stockCode_value typed_AB12_online) \<noteq> [] \<and> ws_is_open typed_AB12_online
   \<and> \<not> ws_is_open typed_AB12_offline \<and> trim (stockCode_value typed_AB12_offline) \<noteq> []
   \<and> trim (stockCode_value (init no_random)) = []
   \<and> sent (startAnalysis typed_AB12_online) = []
   \<and> stockInfo (startAnalysis typed_AB12_online) = Info_Error V_BadFormat
   \<and> sent (validateStockCode typed_AB12_online) = [ValidateStock (js ''AB12'')]
   \<and> sent (validateStockCode typed_AB12_offline) = []
   \<and> sent (validateStockCode (init no_random)) = []"
proof -
  have on: "stockCode_value typed_AB12_online = js ''AB12''" "ws_is_open typed_AB12_online"
      "sent typed_AB12_online = []"
    by (simp_all add: typed_AB12_online_def handler_defs data_defs)
  have off: "stockCode_value typed_AB12_offline = js ''AB12''" "\<not> ws_is_open typed_AB12_offline"
      "sent typed_AB12_offline = []"
    by (simp_all add: typed_AB12_offline_def handler_defs data_defs)
  have i: "stockCode_value (init no_random) = []" "sent (init no_random) = []"
    by (simp_all add: init_def)
  have t: "trim (js ''AB12'') = js ''AB12''" "\<not> isValidFormat (js ''AB12'')" "trim [] = []"
      "js ''AB12'' \<noteq> []"
    by (simp_all add: data_defs)
  show ?thesis
    using C2_request_gates [of typed_AB12_online] C2_request_gates [of typed_AB12_offline]
      C2_request_gates [of "init no_random"] on off i t
    by (simp add: showValidationError_def)
qed

text \<open>
  The claim as stated fails for the validation request: the code \<^verbatim>\<open>AB12\<close> does not match
  the regular expression, and a click on the validate button sends
  \<open>validate_stock\<close> with it on an open socket (the field showing the validating state, not
  an error) and sets the timer of the offline lookup without a socket.
\<close>

theorem C2_counterexample:
  "\<not> isValidFormat (js ''AB12'')
   \<and> sent (run [User ClickValidate] typed_AB12_online) = [ValidateStock (js ''AB12'')]
   \<and> stockInfo (run [User ClickValidate] typed_AB12_online) = Info_Success V_Validating
   \<and> map cb (timers (run [User ClickValidate] typed_AB12_offline))
       = [Welcome, MockValidation (js ''AB12'')]"
  by (simp add: typed_AB12_online_def typed_AB12_offline_def handler_defs data_defs)

section \<open>The offline validation\<close>

lemma mockValidation_callback_shows:
  "stockInfo (mockValidation_callback c s) =
     (if getMockStockInfo c = None then Info_Error V_NotFound else Info_Success V_OfflineOk)"
  by (simp add: mockValidation_callback_def showValidationSuccess_def showValidationError_def
      split: option.splits)

text \<open>
  Claim C8, evaluated on the code. Without an open socket, a click on the validate button
  with the code 2330 in the field leaves the validating state for one second; then the
  callback finds the entry of the table, writes the line with the company name into
  \<open>stockInfo\<close> and calls \<open>showValidationSuccess\<close>, which replaces the content of
  \<open>stockInfo\<close>: what the page shows is the success message of the offline mode, not the
  company name. The code 9999, absent from the table, gives the failure state; the code
  \<^verbatim>\<open>constructor\<close>, absent from the table as well, gives the success state, because the
  lookup finds the member that the table object inherits.
\<close>

theorem C8_offline_validation:
  "\<not> ws_is_open offline_page
   \<and> getMockStockInfo (js ''2330'')
       = Some (OwnEntry (js ''2330'') [0x53F0, 0x7A4D, 0x96FB] [0x534A, 0x5C0E, 0x9AD4])
   \<and> stockInfo (run [User (TypeCode (js ''2330'')), User ClickValidate, Elapse 999] offline_page)
       = Info_Success V_Validating
   \<and> stockInfo (run [User (TypeCode (js ''2330'')), User ClickValidate, Elapse 1000] offline_page)
       = Info_Success V_OfflineOk
   \<and> stockInfo (run [User (TypeCode (js ''9999'')), User ClickValidate, Elapse 1000] offline_page)
       = Info_Error V_NotFound
   \<and> map_of mockStocks (js ''constructor'') = None
   \<and> stockInfo (run [User (TypeCode (js ''constructor'')), User ClickValidate, Elapse 1000]
                  offline_page)
       = Info_Success V_OfflineOk"
  by (simp add: offline_page_def no_random_def handler_defs data_defs timer_defs
      getMockStockInfo_def mockStocks_def object_prototype_keys_def)

section \<open>The watchdog of the report phase\<close>

lemmas quiet_defs = quiet_step_def new_timers_def new_toasts_def

lemmas prim_defs = setProgress_eq showToast_def setTimeout_def ws_send_def Let_def

lemma quiet_showAnalysisResults: "quiet_step s (showAnalysisResults s)"
  by (simp add: quiet_defs showAnalysisResults_def prim_defs)

lemma quiet_handleBattleResults: "quiet_step s (handleBattleResults fd vc s)"
  by (simp add: quiet_defs handleBattleResults_def showAnalysisResults_def prim_defs)

lemma quiet_handleValidationResult: "quiet_step s (handleValidationResult v i t s)"
  by (simp add: quiet_defs handleValidationResult_def showValidationSuccess_def
      showValidationError_def prim_defs split: option.splits)

lemma quiet_handleAgentProgress: "quiet_step s (handleAgentProgress a st t s)"
  by (simp add: quiet_defs handleAgentProgress_def updateProgressBar_def prim_defs
      split: option.splits)

lemma quiet_handleWebSocketMessage:
  assumes "\<And>r. m \<noteq> AnalysisComplete r" "\<And>t. m \<noteq> PhaseCompleted (js ''report'') t"
  shows "quiet_step s (handleWebSocketMessage m s)"
proof (cases m)
  case (PhaseCompleted ph t)
  with assms(2) have "ph \<noteq> js ''report''" by auto
  then show ?thesis using PhaseCompleted
    by (simp add: quiet_defs handlePhaseCompleted_def showToast_def Let_def)
next
  case (AnalysisComplete r)
  with assms(1)[of r] show ?thesis by simp
next
  case (ValidationResult v i t)
  then show ?thesis using quiet_handleValidationResult by simp
next
  case (AgentProgress a st t)
  then show ?thesis using quiet_handleAgentProgress by simp
next
  case (BattleResults fd vc)
  then show ?thesis using quiet_handleBattleResults by simp
qed (simp_all add: quiet_defs handleAnalysisStarted_def handlePhaseStarted_def
      handleBattleStarted_def enableAnalysisButton_def prim_defs)

lemma quiet_processNextAgent: "quiet_step s (processNextAgent i s)"
  by (simp add: quiet_defs processNextAgent_def prim_defs split: option.splits)

lemma quiet_trans:
  assumes "quiet_step s s'" "quiet_step s' s''"
  shows "quiet_step s s''"
proof -
  obtain n1 where t1: "timers s' = timers s @ n1" and n1: "n1 = new_timers s s'"
    using assms(1) unfolding quiet_defs by (metis append_take_drop_id)
  obtain n2 where t2: "timers s'' = timers s' @ n2" and n2: "n2 = new_timers s' s''"
    using assms(2) unfolding quiet_defs by (metis append_take_drop_id)
  obtain m1 where o1: "toasts s' = toasts s @ m1" and m1: "m1 = new_toasts s s'"
    using assms(1) unfolding quiet_defs by (metis append_take_drop_id)
  obtain m2 where o2: "toasts s'' = toasts s' @ m2" and m2: "m2 = new_toasts s' s''"
    using assms(2) unfolding quiet_defs by (metis append_take_drop_id)
  have nt: "new_timers s s'' = n1 @ n2" by (simp add: new_timers_def t1 t2)
  have no: "new_toasts s s'' = m1 @ m2" by (simp add: new_toasts_def o1 o2)
  have a1: "list_all (\<lambda>t. cb t \<noteq> ReportWatchdog \<and> next_tid s \<le> tid t \<and> tid t < next_tid s') n1"
    and a2: "list_all (\<lambda>t. cb t \<noteq> ReportWatchdog \<and> next_tid s' \<le> tid t \<and> tid t < next_tid s'') n2"
    and d1: "distinct (map tid n1)" and d2: "distinct (map tid n2)"
    and le: "next_tid s \<le> next_tid s'" "next_tid s' \<le> next_tid s''"
    using assms n1 n2 unfolding quiet_step_def by simp_all
  have disj: "set (map tid n1) \<inter> set (map tid n2) = {}"
    using a1 a2 by (fastforce simp: list_all_iff)
  have all: "list_all (\<lambda>t. cb t \<noteq> ReportWatchdog \<and> next_tid s \<le> tid t \<and> tid t < next_tid s'') (n1 @ n2)"
    using a1 a2 le by (fastforce simp: list_all_iff)
  have toasts_ok: "list_all (\<lambda>t. t \<noteq> T_FetchingResults \<and> t \<noteq> T_RefreshManually) (m1 @ m2)"
    using assms m1 m2 unfolding quiet_step_def by simp
  show ?thesis
    unfolding quiet_step_def nt no
    using all d1 d2 disj toasts_ok le assms
    by (simp add: t1 t2 o1 o2 quiet_step_def)
qed

lemma quiet_refl: "quiet_step s s"
  by (simp add: quiet_defs)

lemma quiet_resetProgress: "quiet_step s (resetProgress s)"
  by (simp add: quiet_defs resetProgress_def prim_defs)

lemma quiet_startAnalysis: "quiet_step s (startAnalysis s)"
proof -
  let ?code = "trim (stockCode_value s)"
  let ?s3 = "setTimeout ScrollToProgress 100
     ((disableAnalysisButton (s\<lparr>currentStock := Some ?code\<rparr>))
        \<lparr>progressCard_shown := True, resultCard_shown := False\<rparr>)"
  have q3: "quiet_step s ?s3"
    by (simp add: quiet_defs disableAnalysisButton_def prim_defs)
  have q4: "quiet_step s (resetProgress ?s3)"
    by (rule quiet_trans[OF q3 quiet_resetProgress])
  have on: "quiet_step (resetProgress ?s3)
      (setTimeout (SendStartAnalysis ?code) 100 (sendApiConfigToBackend (resetProgress ?s3)))"
    by (simp add: quiet_defs sendApiConfigToBackend_def prim_defs)
  have off1: "quiet_step (resetProgress ?s3) (showToast T_OfflineDemo (resetProgress ?s3))"
    by (simp add: quiet_defs prim_defs)
  have off: "quiet_step (resetProgress ?s3)
      (simulateAnalysis (showToast T_OfflineDemo (resetProgress ?s3)))"
    unfolding simulateAnalysis_def by (rule quiet_trans[OF off1 quiet_processNextAgent])
  show ?thesis
    using quiet_trans[OF q4 on] quiet_trans[OF q4 off]
    by (simp add: startAnalysis_def Let_def quiet_refl)
      (simp add: quiet_defs showValidationError_def)
qed

lemma quiet_user_event: "quiet_step s (user_event a s)"
proof (cases a)
  case SubmitForm
  then show ?thesis using quiet_startAnalysis by simp
next
  case ClickRetry
  have "quiet_step s (showToast T_Retrying s)" by (simp add: quiet_defs prim_defs)
  from quiet_trans[OF this quiet_startAnalysis] show ?thesis
    using ClickRetry by (simp add: retryAnalysis_def quiet_refl split: option.splits)
qed (simp_all add: quiet_defs validateInput_def validateStockCode_def useMockValidation_def
      cancelAnalysis_def clearValidationError_def showValidationError_def
      showValidationSuccess_def enableAnalysisButton_def prim_defs)

lemma quiet_socket_handler: "quiet_step s (socket_handler e s)"
  by (cases e) (simp_all add: quiet_defs showToast_def)

lemma quiet_run_cb:
  assumes "c \<noteq> ReportWatchdog"
  shows "quiet_step s (run_cb c s)"
proof (cases c)
  case ReportWatchdog
  with assms show ?thesis by simp
next
  case (SimAgentDone g a i)
  let ?s1 = "if g = cardGen s then
               (case map_of (cards s) a of
                  Some agentCard \<Rightarrow>
                    s\<lparr>cards := set_card a
                         (agentCard\<lparr>active := False, completed := True, status_text := St_Done\<rparr>)
                         (cards s)\<rparr>
                | None \<Rightarrow> s)
             else s"
  let ?s2 = "setProgress (real (i + 1) / real (length sim_agents) * 70) None ?s1"
  have "quiet_step s ?s2"
    by (simp add: quiet_defs prim_defs split: option.splits)
  from quiet_trans[OF this quiet_processNextAgent] show ?thesis
    using SimAgentDone by (simp add: simAgentDone_callback_def Let_def)
next
  case SimFinish
  have "quiet_step s (s\<lparr>isBattleComplete := True, analysisCompleted := True\<rparr>)"
    by (simp add: quiet_defs)
  from quiet_trans[OF this quiet_showAnalysisResults] show ?thesis
    using SimFinish by (simp add: simFinish_callback_def)
qed (simp_all add: quiet_defs enableAnalysisButton_def mockValidation_callback_def
      showValidationSuccess_def showValidationError_def sendStartAnalysis_callback_def
      simulateBattlePhase_def simReport_callback_def showResultCard_callback_def
      loadRealResults_def loadMockResults_def displayBattleResults_def prim_defs
      split: option.splits readyState.splits)

lemma quiet_decompose:
  assumes "quiet_step s s'"
  shows "timers s' = timers s @ new_timers s s'" "toasts s' = toasts s @ new_toasts s s'"
  using assms unfolding quiet_defs by (metis append_take_drop_id)+

lemma quiet_keeps:
  assumes "quiet_step s s'"
  shows "watchdog_pending s' = watchdog_pending s"
    and "watchdog_toasts s' = watchdog_toasts s"
    and "now s' = now s"
    and "reportCompleteTimeout s' = reportCompleteTimeout s"
    and "timers_ok s \<Longrightarrow> timers_ok s'"
proof -
  note d = quiet_decompose[OF assms]
  have n: "list_all (\<lambda>t. cb t \<noteq> ReportWatchdog \<and> next_tid s \<le> tid t \<and> tid t < next_tid s')
             (new_timers s s')"
    and o: "list_all (\<lambda>t. t \<noteq> T_FetchingResults \<and> t \<noteq> T_RefreshManually) (new_toasts s s')"
    and dn: "distinct (map tid (new_timers s s'))"
    and le: "next_tid s \<le> next_tid s'"
    and r: "reportCompleteTimeout s' = reportCompleteTimeout s"
    using assms unfolding quiet_step_def by simp_all
  have "filter (\<lambda>t. cb t = ReportWatchdog) (new_timers s s') = []"
    using n by (auto simp: filter_empty_conv list_all_iff)
  then show wp: "watchdog_pending s' = watchdog_pending s"
    by (simp add: watchdog_pending_def d)
  have "filter (\<lambda>t. t = T_FetchingResults \<or> t = T_RefreshManually) (new_toasts s s') = []"
    using o by (auto simp: filter_empty_conv list_all_iff)
  then show "watchdog_toasts s' = watchdog_toasts s"
    by (simp add: watchdog_toasts_def d)
  show "now s' = now s" using assms unfolding quiet_step_def by simp
  show "reportCompleteTimeout s' = reportCompleteTimeout s" by (rule r)
  assume ok: "timers_ok s"
  have "set (map tid (timers s)) \<inter> set (map tid (new_timers s s')) = {}"
    using ok n unfolding timers_ok_def by (fastforce simp: list_all_iff)
  moreover have "list_all (\<lambda>t. tid t < next_tid s') (timers s)"
    using ok le unfolding timers_ok_def by (fastforce simp: list_all_iff)
  moreover have "list_all (\<lambda>t. tid t < next_tid s') (new_timers s s')"
    using n by (simp add: list_all_iff)
  ultimately show "timers_ok s'"
    using ok dn unfolding timers_ok_def wp r by (simp add: d)
qed

lemma quiet_armed: "quiet_step s s' \<Longrightarrow> armed D ws s \<Longrightarrow> armed D ws s'"
  unfolding armed_def using quiet_keeps[of s s'] by simp

lemma quiet_disarmed: "quiet_step s s' \<Longrightarrow> disarmed ws s \<Longrightarrow> disarmed ws s'"
  unfolding disarmed_def using quiet_keeps[of s s'] by simp

lemma timers_ok_cases:
  assumes "timers_ok s"
  shows "watchdog_pending s = [] \<or> (\<exists>w. watchdog_pending s = [w])"
proof (cases "watchdog_pending s")
  case Nil
  then show ?thesis by simp
next
  case (Cons w ws)
  have "ws = []"
  proof (cases ws)
    case Nil
    then show ?thesis .
  next
    case (Cons w' ws')
    have sub: "distinct (map tid (watchdog_pending s))"
      using assms unfolding timers_ok_def watchdog_pending_def by (simp add: distinct_map_filter)
    have all: "list_all (\<lambda>t. reportCompleteTimeout s = Some (tid t)) (w # w' # ws')"
      using assms unfolding timers_ok_def \<open>watchdog_pending s = w # ws\<close> Cons by blast
    have all': "\<forall>x\<in>set (w # w' # ws'). reportCompleteTimeout s = Some (tid x)"
      using all unfolding list_all_iff .
    have a: "reportCompleteTimeout s = Some (tid w)" by (rule bspec[OF all']) simp
    have b: "reportCompleteTimeout s = Some (tid w')" by (rule bspec[OF all']) simp
    from a b have "tid w = tid w'" by (metis option.inject)
    with sub show ?thesis unfolding \<open>watchdog_pending s = w # ws\<close> Cons by simp
  qed
  with Cons show ?thesis by simp
qed

lemma fire_removed: "fire t s = run_cb (cb t) (removed t s)"
  by (simp add: fire_def removed_def)

lemma timers_ok_removed: "timers_ok s \<Longrightarrow> timers_ok (removed t s)"
  unfolding timers_ok_def removed_def watchdog_pending_def
  by (auto simp: distinct_map_filter list_all_iff)

lemma watchdog_pending_removed_other:
  assumes "timers_ok s" "t \<in> set (timers s)" "cb t \<noteq> ReportWatchdog"
  shows "watchdog_pending (removed t s) = watchdog_pending s"
proof -
  have "\<And>u. u \<in> set (timers s) \<Longrightarrow> cb u = ReportWatchdog \<Longrightarrow> tid u \<noteq> tid t"
  proof
    fix u assume u: "u \<in> set (timers s)" "cb u = ReportWatchdog" "tid u = tid t"
    have "inj_on tid (set (timers s))"
      using assms(1) unfolding timers_ok_def by (simp add: distinct_map)
    with u assms(2) have "u = t" by (auto dest: inj_onD)
    with u assms(3) show False by simp
  qed
  then show ?thesis
    unfolding watchdog_pending_def removed_def
    by (auto intro!: filter_cong)
qed

lemma watchdog_pending_removed_self:
  assumes "timers_ok s" "cb t = ReportWatchdog" "t \<in> set (timers s)"
  shows "watchdog_pending (removed t s) = []"
proof -
  have "\<And>u. u \<in> set (timers s) \<Longrightarrow> cb u = ReportWatchdog \<Longrightarrow> tid u = tid t"
  proof -
    fix u assume u: "u \<in> set (timers s)" "cb u = ReportWatchdog"
    then have "u \<in> set (watchdog_pending s)" "t \<in> set (watchdog_pending s)"
      using assms by (simp_all add: watchdog_pending_def)
    moreover have all: "\<forall>x\<in>set (watchdog_pending s). reportCompleteTimeout s = Some (tid x)"
      using assms(1) unfolding timers_ok_def list_all_iff by blast
    ultimately have "reportCompleteTimeout s = Some (tid u)"
      and "reportCompleteTimeout s = Some (tid t)"
      by blast+
    then show "tid u = tid t" by (metis option.inject)
  qed
  then show ?thesis
    unfolding watchdog_pending_def removed_def
    by (auto simp: filter_empty_conv)
qed

lemma toasts_removed: "watchdog_toasts (removed t s) = watchdog_toasts s"
  by (simp add: watchdog_toasts_def removed_def)

lemma fire_other_armed:
  assumes "armed D ws s" "t \<in> set (timers s)" "cb t \<noteq> ReportWatchdog"
  shows "armed D ws (fire t s)"
proof -
  have "armed D ws (removed t s)"
    using assms timers_ok_removed[of s t] watchdog_pending_removed_other[of s t] toasts_removed[of t s]
    unfolding armed_def by simp
  then show ?thesis
    unfolding fire_removed by (rule quiet_armed[OF quiet_run_cb[OF assms(3)]])
qed

lemma fire_disarmed:
  assumes "disarmed ws s" "t \<in> set (timers s)"
  shows "disarmed ws (fire t s)"
proof -
  have c: "cb t \<noteq> ReportWatchdog"
  proof
    assume "cb t = ReportWatchdog"
    with assms(2) have "t \<in> set (watchdog_pending s)" by (simp add: watchdog_pending_def)
    with assms(1) show False by (simp add: disarmed_def)
  qed
  have "disarmed ws (removed t s)"
    using assms c timers_ok_removed[of s t] watchdog_pending_removed_other[of s t]
      toasts_removed[of t s]
    unfolding disarmed_def by simp
  then show ?thesis
    unfolding fire_removed by (rule quiet_disarmed[OF quiet_run_cb[OF c]])
qed

lemma watchdog_callback:
  assumes "timers_ok u" "watchdog_pending u = []"
  shows "disarmed (watchdog_toasts u @ watchdog_warning) (run_cb ReportWatchdog u)"
proof -
  define u' where "u' = run_cb ReportWatchdog u"
  have t: "timers u' = timers u @ [\<lparr>tid = next_tid u, due = now u + 2000, cb = EnableButtonLater\<rparr>]"
    and n: "next_tid u' = Suc (next_tid u)"
    and r: "reportCompleteTimeout u' = reportCompleteTimeout u"
    and o: "toasts u' = toasts u @ [T_FetchingResults, T_RefreshManually]"
    by (simp_all add: u'_def tryLoadLatestReport_def showToast_def setTimeout_def)
  have wp: "watchdog_pending u' = []"
    using assms(2) unfolding watchdog_pending_def t by simp
  have wt: "watchdog_toasts u' = watchdog_toasts u @ watchdog_warning"
    unfolding watchdog_toasts_def o by (simp add: watchdog_warning_def)
  have old: "\<forall>x\<in>set (timers u). tid x < next_tid u" and d: "distinct (map tid (timers u))"
    using assms(1) unfolding timers_ok_def list_all_iff by blast+
  then have "next_tid u \<notin> tid ` set (timers u)" by auto
  moreover have "\<forall>x\<in>set (timers u). tid x < Suc (next_tid u)"
    using old by (simp add: less_Suc_eq)
  ultimately have "timers_ok u'"
    using d unfolding timers_ok_def wp t n by (simp add: list_all_iff)
  then show ?thesis using wp wt unfolding u'_def by (simp add: disarmed_def)
qed

lemma fire_watchdog:
  assumes "armed D ws s" "t \<in> set (timers s)" "cb t = ReportWatchdog"
  shows "disarmed (ws @ watchdog_warning) (fire t s)"
proof -
  have ok: "timers_ok s" and ws: "watchdog_toasts s = ws" using assms(1) by (simp_all add: armed_def)
  have "timers_ok (removed t s)" "watchdog_pending (removed t s) = []"
    using timers_ok_removed[OF ok] watchdog_pending_removed_self[OF ok assms(3) assms(2)] by simp_all
  from watchdog_callback[OF this] show ?thesis
    unfolding fire_removed assms(3) toasts_removed ws .
qed

lemma earliest_None: "earliest ts = None \<longleftrightarrow> ts = []"
  by (cases ts) (auto split: option.splits if_splits)

lemma earliest_least: "earliest ts = Some t \<Longrightarrow> u \<in> set ts \<Longrightarrow> due t \<le> due u"
proof (induction ts arbitrary: t)
  case Nil
  then show ?case by simp
next
  case (Cons x xs)
  show ?case
  proof (cases "earliest xs")
    case None
    then have "xs = []" by (simp add: earliest_None)
    with Cons.prems None show ?thesis by simp
  next
    case (Some e)
    with Cons.prems Cons.IH[OF Some] show ?thesis
      by (auto split: if_splits)
  qed
qed

lemma next_due_Some: "next_due T s = Some t \<Longrightarrow> t \<in> set (timers s) \<and> due t \<le> T"
  by (auto simp: next_due_def dest: earliest_mem split: option.splits if_splits)

lemma next_due_None: "next_due T s = None \<Longrightarrow> u \<in> set (timers s) \<Longrightarrow> T < due u"
  by (auto simp: next_due_def earliest_None dest: earliest_least split: option.splits if_splits)

lemma disarmed_now: "disarmed ws s \<Longrightarrow> disarmed ws (s\<lparr>now := T\<rparr>)"
  by (simp add: disarmed_def timers_ok_def watchdog_pending_def watchdog_toasts_def)

lemma armed_now: "armed D ws s \<Longrightarrow> armed D ws (s\<lparr>now := T\<rparr>)"
  by (simp add: armed_def timers_ok_def watchdog_pending_def watchdog_toasts_def)

lemma run_until_disarmed: "disarmed ws s \<Longrightarrow> disarmed ws (run_until T s)"
proof (induction T s rule: run_until.induct)
  case (1 target s)
  show ?case
  proof (cases "next_due target s")
    case None
    then show ?thesis using 1(2) by (simp add: run_until.simps[of target s] disarmed_now)
  next
    case (Some t)
    from next_due_Some[OF Some] 1(2) have "disarmed ws (fire t s)"
      by (simp add: fire_disarmed)
    from 1(1)[OF Some this] Some show ?thesis by (simp add: run_until.simps[of target s])
  qed
qed

lemma armed_timer:
  assumes "armed D ws s" "t \<in> set (timers s)" "cb t = ReportWatchdog"
  shows "due t = D"
proof -
  from assms(1) obtain w where w: "watchdog_pending s = [w]" "due w = D"
    by (auto simp: armed_def)
  from assms(2,3) have "t \<in> set (watchdog_pending s)" by (simp add: watchdog_pending_def)
  with w show ?thesis by simp
qed

lemma run_until_armed_before:
  "armed D ws s \<Longrightarrow> T < D \<Longrightarrow> armed D ws (run_until T s)"
proof (induction T s rule: run_until.induct)
  case (1 target s)
  show ?case
  proof (cases "next_due target s")
    case None
    then show ?thesis using 1(2) by (simp add: run_until.simps[of target s] armed_now)
  next
    case (Some t)
    from next_due_Some[OF Some] have t: "t \<in> set (timers s)" "due t \<le> target" by simp_all
    have "cb t \<noteq> ReportWatchdog"
      using armed_timer[OF 1(2) t(1)] t(2) 1(3) by auto
    from fire_other_armed[OF 1(2) t(1) this] have "armed D ws (fire t s)" .
    from 1(1)[OF Some this 1(3)] Some show ?thesis by (simp add: run_until.simps[of target s])
  qed
qed

lemma run_until_armed_after:
  "armed D ws s \<Longrightarrow> D \<le> T \<Longrightarrow> disarmed (ws @ watchdog_warning) (run_until T s)"
proof (induction T s rule: run_until.induct)
  case (1 target s)
  from 1(2) obtain w where w: "watchdog_pending s = [w]" "due w = D"
    by (auto simp: armed_def)
  then have "w \<in> set (watchdog_pending s)" by simp
  then have wmem: "w \<in> set (timers s)" by (simp add: watchdog_pending_def)
  show ?case
  proof (cases "next_due target s")
    case None
    from next_due_None[OF None wmem] w(2) 1(3) show ?thesis by simp
  next
    case (Some t)
    from next_due_Some[OF Some] have t: "t \<in> set (timers s)" "due t \<le> target" by simp_all
    show ?thesis
    proof (cases "cb t = ReportWatchdog")
      case True
      from fire_watchdog[OF 1(2) t(1) True]
      have "disarmed (ws @ watchdog_warning) (run_until target (fire t s))"
        by (rule run_until_disarmed)
      with Some show ?thesis by (simp add: run_until.simps[of target s])
    next
      case False
      from fire_other_armed[OF 1(2) t(1) False] have "armed D ws (fire t s)" .
      from 1(1)[OF Some this 1(3)] Some show ?thesis by (simp add: run_until.simps[of target s])
    qed
  qed
qed

lemma now_run_cb: "now (run_cb c s) = now s"
proof (cases "c = ReportWatchdog")
  case True
  then show ?thesis by (simp add: tryLoadLatestReport_def showToast_def setTimeout_def)
next
  case False
  from quiet_keeps(3)[OF quiet_run_cb[OF False]] show ?thesis .
qed

lemma now_run_until: "now (run_until T s) = max (now s) T"
proof (induction T s rule: run_until.induct)
  case (1 target s)
  show ?case
  proof (cases "next_due target s")
    case None
    then show ?thesis by (simp add: run_until.simps[of target s])
  next
    case (Some t)
    from next_due_Some[OF Some] have "due t \<le> target" by simp
    moreover have "now (fire t s) = max (now s) (due t)"
      by (simp add: fire_removed now_run_cb) (simp add: removed_def)
    ultimately show ?thesis using 1[OF Some] Some
      by (simp add: run_until.simps[of target s])
  qed
qed

lemma run_append: "run (xs @ ys) s = run ys (run xs s)"
  by (induction xs arbitrary: s) simp_all

lemma clear_handle:
  assumes "timers_ok s"
  shows "disarmed (watchdog_toasts s)
           (case reportCompleteTimeout s of Some h \<Rightarrow> clearTimeout h s | None \<Rightarrow> s)"
proof (cases "reportCompleteTimeout s")
  case None
  have "watchdog_pending s = []"
  proof (cases "watchdog_pending s")
    case Nil
    then show ?thesis .
  next
    case (Cons w ws)
    then have "reportCompleteTimeout s = Some (tid w)"
      using assms unfolding timers_ok_def by simp
    with None show ?thesis by simp
  qed
  with assms None show ?thesis by (simp add: disarmed_def)
next
  case (Some h)
  have all: "\<forall>x\<in>set (watchdog_pending s). reportCompleteTimeout s = Some (tid x)"
    using assms unfolding timers_ok_def list_all_iff by blast
  have "\<And>x. x \<in> set (timers s) \<Longrightarrow> cb x = ReportWatchdog \<Longrightarrow> tid x = h"
  proof -
    fix x assume "x \<in> set (timers s)" "cb x = ReportWatchdog"
    then have "x \<in> set (watchdog_pending s)" by (simp add: watchdog_pending_def)
    with all have "reportCompleteTimeout s = Some (tid x)" by blast
    with Some show "tid x = h" by simp
  qed
  then have wp: "watchdog_pending (clearTimeout h s) = []"
    unfolding watchdog_pending_def clearTimeout_def by (auto simp: filter_empty_conv)
  have "timers_ok (clearTimeout h s)"
    using assms unfolding timers_ok_def wp
    by (auto simp: clearTimeout_def distinct_map_filter list_all_iff)
  with wp Some show ?thesis
    by (simp add: disarmed_def) (simp add: watchdog_toasts_def clearTimeout_def)
qed

lemma arm_watchdog:
  assumes "timers_ok s"
  shows "armed (now s + 30000) (watchdog_toasts s) (handlePhaseCompleted (js ''report'') m s)"
    and "map (\<lambda>w. Some (tid w)) (watchdog_pending (handlePhaseCompleted (js ''report'') m s))
           = [reportCompleteTimeout (handlePhaseCompleted (js ''report'') m s)]"
    and "now (handlePhaseCompleted (js ''report'') m s) = now s"
proof -
  define s1 where "s1 = showToast (T_PhaseCompleted (js ''report'') m) s"
  define s2 where "s2 = (case reportCompleteTimeout s1 of Some h \<Rightarrow> clearTimeout h s1 | None \<Rightarrow> s1)"
  define a where "a = handlePhaseCompleted (js ''report'') m s"
  have q: "quiet_step s s1" by (simp add: s1_def quiet_defs showToast_def)
  have "timers_ok s1" "watchdog_toasts s1 = watchdog_toasts s"
    using quiet_keeps[OF q] assms by simp_all
  with clear_handle[of s1] have d: "disarmed (watchdog_toasts s) s2" by (simp add: s2_def)
  have same: "next_tid s2 = next_tid s" "now s2 = now s" "toasts s2 = toasts s1"
    by (simp_all add: s2_def s1_def showToast_def clearTimeout_def split: option.splits)
  have t: "timers a = timers s2 @ [\<lparr>tid = next_tid s, due = now s + 30000, cb = ReportWatchdog\<rparr>]"
    and h: "reportCompleteTimeout a = Some (next_tid s)"
    and n: "next_tid a = Suc (next_tid s)"
    and o: "toasts a = toasts s2"
    and nw: "now a = now s"
    using same unfolding a_def handlePhaseCompleted_def Let_def s2_def s1_def
    by (simp_all add: setTimeout_def split: option.splits)
  from d have wp2: "watchdog_pending s2 = []" and ok2: "timers_ok s2"
    and wt2: "watchdog_toasts s2 = watchdog_toasts s"
    by (simp_all add: disarmed_def)
  have wp: "watchdog_pending a = [\<lparr>tid = next_tid s, due = now s + 30000, cb = ReportWatchdog\<rparr>]"
    using wp2 unfolding watchdog_pending_def t by simp
  have old: "\<forall>x\<in>set (timers s2). tid x < next_tid s" and dd: "distinct (map tid (timers s2))"
    using ok2 same unfolding timers_ok_def list_all_iff by auto
  then have "next_tid s \<notin> tid ` set (timers s2)" by auto
  moreover have "\<forall>x\<in>set (timers s2). tid x < Suc (next_tid s)"
    using old by (simp add: less_Suc_eq)
  ultimately have ok: "timers_ok a"
    using dd unfolding timers_ok_def wp t n h by (simp add: list_all_iff)
  have wt: "watchdog_toasts a = watchdog_toasts s"
    using wt2 unfolding watchdog_toasts_def o .
  show "armed (now s + 30000) (watchdog_toasts s) (handlePhaseCompleted (js ''report'') m s)"
    using ok wp wt unfolding a_def[symmetric] armed_def by simp
  show "map (\<lambda>w. Some (tid w)) (watchdog_pending (handlePhaseCompleted (js ''report'') m s))
           = [reportCompleteTimeout (handlePhaseCompleted (js ''report'') m s)]"
    unfolding a_def[symmetric] wp h by simp
  show "now (handlePhaseCompleted (js ''report'') m s) = now s"
    unfolding a_def[symmetric] by (rule nw)
qed

lemma cancel_watchdog:
  assumes "timers_ok s"
  shows "disarmed (watchdog_toasts s) (handleAnalysisComplete r s)"
    and "now (handleAnalysisComplete r s) = now s"
proof -
  define s0 where "s0 = (case reportCompleteTimeout s of Some h \<Rightarrow> clearTimeout h s | None \<Rightarrow> s)"
  define s1 where "s1 = s0\<lparr>reportCompleteTimeout := None\<rparr>"
  from clear_handle[OF assms] have d0: "disarmed (watchdog_toasts s) s0" by (simp add: s0_def)
  then have d1: "disarmed (watchdog_toasts s) s1"
    by (simp add: s1_def disarmed_def timers_ok_def watchdog_pending_def watchdog_toasts_def)
  have q: "quiet_step s1 (handleAnalysisComplete r s)"
    unfolding s1_def s0_def
    by (simp add: quiet_defs handleAnalysisComplete_def showAnalysisResults_def
        enableAnalysisButton_def clearTimeout_def prim_defs split: option.splits)
  show "disarmed (watchdog_toasts s) (handleAnalysisComplete r s)"
    by (rule quiet_disarmed[OF q d1])
  have "now s1 = now s" by (simp add: s1_def s0_def clearTimeout_def split: option.splits)
  with quiet_keeps(3)[OF q] show "now (handleAnalysisComplete r s) = now s" by simp
qed

lemma quiet_event_step:
  assumes "quiet_event e" "\<And>d. e \<noteq> Elapse d"
  shows "quiet_step s (step e s)"
proof (cases e)
  case (Receive m)
  have "\<And>r. m \<noteq> AnalysisComplete r" "\<And>t. m \<noteq> PhaseCompleted (js ''report'') t"
    using assms(1) Receive by auto
  from quiet_handleWebSocketMessage[OF this] Receive show ?thesis by simp
next
  case (Elapse d)
  with assms(2)[of d] show ?thesis by simp
qed (simp_all add: quiet_user_event quiet_socket_handler)

lemma timers_ok_disarmed: "timers_ok s \<Longrightarrow> watchdog_pending s = [] \<Longrightarrow> disarmed (watchdog_toasts s) s"
  by (simp add: disarmed_def)

lemma timers_ok_run_until:
  assumes "timers_ok s"
  shows "timers_ok (run_until T s)"
proof -
  from timers_ok_cases[OF assms] show ?thesis
  proof
    assume "watchdog_pending s = []"
    with assms have "disarmed (watchdog_toasts s) s" by (simp add: disarmed_def)
    from run_until_disarmed[OF this] show ?thesis by (simp add: disarmed_def)
  next
    assume "\<exists>w. watchdog_pending s = [w]"
    then obtain w where "watchdog_pending s = [w]" by blast
    with assms have a: "armed (due w) (watchdog_toasts s) s" by (simp add: armed_def)
    show ?thesis
    proof (cases "T < due w")
      case True
      from run_until_armed_before[OF a True] show ?thesis by (simp add: armed_def)
    next
      case False
      then have "due w \<le> T" by simp
      from run_until_armed_after[OF a this] show ?thesis by (simp add: disarmed_def)
    qed
  qed
qed

lemma timers_ok_step:
  assumes "timers_ok s"
  shows "timers_ok (step e s)"
proof (cases "quiet_event e")
  case True
  show ?thesis
  proof (cases e)
    case (Elapse d)
    then show ?thesis using timers_ok_run_until[OF assms] by simp
  next
    case (Receive m)
    then have "\<And>d. e \<noteq> Elapse d" by simp
    from quiet_keeps(5)[OF quiet_event_step[OF True this] assms] show ?thesis .
  next
    case (User a)
    then have "\<And>d. e \<noteq> Elapse d" by simp
    from quiet_keeps(5)[OF quiet_event_step[OF True this] assms] show ?thesis .
  next
    case (Socket x)
    then have "\<And>d. e \<noteq> Elapse d" by simp
    from quiet_keeps(5)[OF quiet_event_step[OF True this] assms] show ?thesis .
  qed
next
  case False
  then consider (complete) r where "e = Receive (AnalysisComplete r)"
    | (report) m where "e = Receive (PhaseCompleted (js ''report'') m)"
    by (cases e rule: quiet_event.cases) auto
  then show ?thesis
  proof cases
    case complete
    then show ?thesis using cancel_watchdog(1)[OF assms] by (simp add: disarmed_def)
  next
    case report
    then show ?thesis using arm_watchdog(1)[OF assms] by (simp add: armed_def)
  qed
qed

lemma timers_ok_run: "timers_ok s \<Longrightarrow> timers_ok (run evs s)"
  by (induction evs arbitrary: s) (simp_all add: timers_ok_step)

lemma timers_ok_init: "timers_ok (init rnd)"
  by (simp add: timers_ok_def init_def watchdog_pending_def)

lemma now_step:
  assumes "timers_ok s"
  shows "now (step e s) = now s + elapsed_of e"
proof (cases "quiet_event e")
  case True
  show ?thesis
  proof (cases e)
    case (Elapse d)
    then show ?thesis by (simp add: now_run_until)
  next
    case (Receive m)
    then have "\<And>d. e \<noteq> Elapse d" by simp
    from quiet_keeps(3)[OF quiet_event_step[OF True this]] Receive show ?thesis by simp
  next
    case (User a)
    then have "\<And>d. e \<noteq> Elapse d" by simp
    from quiet_keeps(3)[OF quiet_event_step[OF True this]] User show ?thesis by simp
  next
    case (Socket x)
    then have "\<And>d. e \<noteq> Elapse d" by simp
    from quiet_keeps(3)[OF quiet_event_step[OF True this]] Socket show ?thesis by simp
  qed
next
  case False
  then consider (complete) r where "e = Receive (AnalysisComplete r)"
    | (report) m where "e = Receive (PhaseCompleted (js ''report'') m)"
    by (cases e rule: quiet_event.cases) auto
  then show ?thesis
  proof cases
    case complete
    then show ?thesis using cancel_watchdog(2)[OF assms] by simp
  next
    case report
    then show ?thesis using arm_watchdog(3)[OF assms] by simp
  qed
qed

lemma now_run: "timers_ok s \<Longrightarrow> now (run evs s) = now s + elapsed evs"
proof (induction evs arbitrary: s)
  case Nil
  then show ?case by (simp add: elapsed_def)
next
  case (Cons e evs)
  from Cons.IH[OF timers_ok_step[OF Cons.prems]] now_step[OF Cons.prems]
  show ?case by (simp add: elapsed_def)
qed

lemma watchdog_state_step:
  assumes "quiet_event e" "watchdog_state D ws s"
  shows "watchdog_state D ws (step e s)"
proof (cases "\<exists>d. e = Elapse d")
  case False
  then have q: "quiet_step s (step e s)" using quiet_event_step[OF assms(1)] by blast
  from quiet_keeps(3)[OF q] assms(2) quiet_armed[OF q] quiet_disarmed[OF q]
  show ?thesis unfolding watchdog_state_def by auto
next
  case True
  then obtain d where e: "e = Elapse d" by blast
  have n: "now (step e s) = now s + d" by (simp add: e now_run_until)
  show ?thesis
  proof (cases "now s < D")
    case False
    with assms(2) have "disarmed (ws @ watchdog_warning) s" by (simp add: watchdog_state_def)
    from run_until_disarmed[OF this] False n show ?thesis
      by (simp add: watchdog_state_def e)
  next
    case True
    with assms(2) have a: "armed D ws s" by (simp add: watchdog_state_def)
    show ?thesis
    proof (cases "now s + d < D")
      case True
      from run_until_armed_before[OF a True] True n show ?thesis
        by (simp add: watchdog_state_def e)
    next
      case False
      then have "D \<le> now s + d" by simp
      from run_until_armed_after[OF a this] False n show ?thesis
        by (simp add: watchdog_state_def e)
    qed
  qed
qed

lemma watchdog_state_run:
  "list_all quiet_event evs \<Longrightarrow> watchdog_state D ws s \<Longrightarrow> watchdog_state D ws (run evs s)"
  by (induction evs arbitrary: s) (simp_all add: watchdog_state_step)

lemma disarmed_step:
  assumes "no_rearm e" "disarmed ws s"
  shows "disarmed ws (step e s)"
proof (cases "quiet_event e")
  case True
  show ?thesis
  proof (cases "\<exists>d. e = Elapse d")
    case True
    then show ?thesis using run_until_disarmed[OF assms(2)] by auto
  next
    case False
    then have "quiet_step s (step e s)" using quiet_event_step[OF True] by blast
    from quiet_disarmed[OF this assms(2)] show ?thesis .
  qed
next
  case False
  with assms(1) obtain r where "e = Receive (AnalysisComplete r)"
    by (cases e rule: quiet_event.cases) auto
  moreover from assms(2) have "timers_ok s" "watchdog_toasts s = ws" by (simp_all add: disarmed_def)
  ultimately show ?thesis using cancel_watchdog(1)[of s r] by simp
qed

lemma disarmed_run:
  "list_all no_rearm evs \<Longrightarrow> disarmed ws s \<Longrightarrow> disarmed ws (run evs s)"
  by (induction evs arbitrary: s) (simp_all add: disarmed_step)

lemma after_report_phase_armed:
  "armed (now (after_report_phase evs0 rnd m) + 30000)
     (watchdog_toasts (after_report_phase evs0 rnd m)) (after_report_phase evs0 rnd m)"
  "map (\<lambda>w. Some (tid w)) (watchdog_pending (after_report_phase evs0 rnd m))
     = [reportCompleteTimeout (after_report_phase evs0 rnd m)]"
proof -
  define s where "s = run evs0 (init rnd)"
  have A: "after_report_phase evs0 rnd m = handlePhaseCompleted (js ''report'') m s"
    by (simp add: after_report_phase_def run_append s_def)
  have ok: "timers_ok s" unfolding s_def by (rule timers_ok_run[OF timers_ok_init])
  note arm = arm_watchdog[OF ok, of m]
  from arm(1) have "armed (now s + 30000) (watchdog_toasts (handlePhaseCompleted (js ''report'') m s))
      (handlePhaseCompleted (js ''report'') m s)"
    by (simp add: armed_def)
  then show "armed (now (after_report_phase evs0 rnd m) + 30000)
     (watchdog_toasts (after_report_phase evs0 rnd m)) (after_report_phase evs0 rnd m)"
    unfolding A arm(3) .
  show "map (\<lambda>w. Some (tid w)) (watchdog_pending (after_report_phase evs0 rnd m))
     = [reportCompleteTimeout (after_report_phase evs0 rnd m)]"
    unfolding A by (rule arm(2))
qed

text \<open>
  Claim C5. Take any sequence of events from the start of the page, followed by the
  message \<open>phase_completed\<close> with phase \<open>report\<close>. Then exactly one watchdog timer is
  pending, due 30000 ms later, and \<open>reportCompleteTimeout\<close> holds its handle (a watchdog
  set earlier has been cleared). From there, under events that are neither
  \<open>analysis_complete\<close> nor another \<open>phase_completed\<close> of the report phase: while less than
  30000 ms have passed, no watchdog warning has been shown and the timer is still pending;
  once 30000 ms or more have passed, the two warning toasts of the watchdog (the attempt
  to fetch the results and the request to refresh the page by hand) have been shown
  exactly once each and no watchdog is pending. When \<open>analysis_complete\<close> is processed
  before 30000 ms have passed, the timer is gone, and no watchdog warning is shown however
  much time passes afterwards, as long as the report phase is not completed again.
\<close>

theorem C5_report_watchdog:
  "map due (watchdog_pending (after_report_phase evs0 rnd m))
     = [now (after_report_phase evs0 rnd m) + 30000]
   \<and> map (\<lambda>w. Some (tid w)) (watchdog_pending (after_report_phase evs0 rnd m))
     = [reportCompleteTimeout (after_report_phase evs0 rnd m)]
   \<and> (list_all quiet_event evs \<and> elapsed evs < 30000 \<longrightarrow>
        watchdog_toasts (run evs (after_report_phase evs0 rnd m))
          = watchdog_toasts (after_report_phase evs0 rnd m)
        \<and> map due (watchdog_pending (run evs (after_report_phase evs0 rnd m)))
          = [now (after_report_phase evs0 rnd m) + 30000])
   \<and> (list_all quiet_event evs \<and> 30000 \<le> elapsed evs \<longrightarrow>
        watchdog_toasts (run evs (after_report_phase evs0 rnd m))
          = watchdog_toasts (after_report_phase evs0 rnd m) @ [T_FetchingResults, T_RefreshManually]
        \<and> watchdog_pending (run evs (after_report_phase evs0 rnd m)) = [])
   \<and> (list_all quiet_event evs \<and> elapsed evs < 30000 \<and> list_all no_rearm evs' \<longrightarrow>
        watchdog_pending (run (evs @ [Receive (AnalysisComplete r)]) (after_report_phase evs0 rnd m))
          = []
        \<and> watchdog_toasts
            (run (evs @ Receive (AnalysisComplete r) # evs') (after_report_phase evs0 rnd m))
          = watchdog_toasts (after_report_phase evs0 rnd m))"
proof -
  define A where "A = after_report_phase evs0 rnd m"
  define D where "D = now A + 30000"
  define ws where "ws = watchdog_toasts A"
  have armedA: "armed D ws A" and handle: "map (\<lambda>w. Some (tid w)) (watchdog_pending A)
     = [reportCompleteTimeout A]"
    unfolding A_def D_def ws_def by (rule after_report_phase_armed)+
  then have okA: "timers_ok A" by (simp add: armed_def)
  have st: "watchdog_state D ws A" using armedA by (simp add: watchdog_state_def D_def)
  have dueA: "map due (watchdog_pending A) = [D]" using armedA by (auto simp: armed_def)
  have before: "watchdog_toasts (run evs A) = ws \<and> map due (watchdog_pending (run evs A)) = [D]
      \<and> armed D ws (run evs A)"
    if "list_all quiet_event evs" "elapsed evs < 30000" for evs
  proof -
    from watchdog_state_run[OF that(1) st] now_run[OF okA, of evs] that(2)
    have "armed D ws (run evs A)" by (simp add: watchdog_state_def D_def)
    then show ?thesis by (auto simp: armed_def)
  qed
  have after: "watchdog_toasts (run evs A) = ws @ [T_FetchingResults, T_RefreshManually]
      \<and> watchdog_pending (run evs A) = []"
    if "list_all quiet_event evs" "30000 \<le> elapsed evs" for evs
  proof -
    from watchdog_state_run[OF that(1) st] now_run[OF okA, of evs] that(2)
    have "disarmed (ws @ watchdog_warning) (run evs A)" by (simp add: watchdog_state_def D_def)
    then show ?thesis by (simp add: disarmed_def watchdog_warning_def)
  qed
  have cancelled: "watchdog_pending (run (evs @ [Receive (AnalysisComplete r)]) A) = []
      \<and> watchdog_toasts (run (evs @ Receive (AnalysisComplete r) # evs') A) = ws"
    if "list_all quiet_event evs" "elapsed evs < 30000" "list_all no_rearm evs'" for evs evs'
  proof -
    from before[OF that(1,2)] have "armed D ws (run evs A)" by simp
    then have "timers_ok (run evs A)" "watchdog_toasts (run evs A) = ws" by (simp_all add: armed_def)
    with cancel_watchdog(1)[of "run evs A" r]
    have d: "disarmed ws (run (evs @ [Receive (AnalysisComplete r)]) A)"
      by (simp add: run_append)
    from disarmed_run[OF that(3) d]
    have "disarmed ws (run (evs @ Receive (AnalysisComplete r) # evs') A)"
      by (simp add: run_append)
    with d show ?thesis by (simp add: disarmed_def)
  qed
  show ?thesis
    using dueA handle before after cancelled
    unfolding A_def[symmetric] D_def[symmetric] ws_def[symmetric] by blast
qed

theorem C5_witness:
  "list_all quiet_event [Elapse 10000, Receive BattleStarted, Elapse 19999]
   \<and> elapsed [Elapse 10000, Receive BattleStarted, Elapse 19999] < 30000
   \<and> list_all quiet_event [Elapse 10000, Receive BattleStarted, Elapse 20000]
   \<and> 30000 \<le> elapsed [Elapse 10000, Receive BattleStarted, Elapse 20000]
   \<and> list_all no_rearm [Elapse 100000]
   \<and> watchdog_toasts report_phase_reached = []
   \<and> watchdog_toasts (run [Elapse 10000, Receive BattleStarted, Elapse 19999] report_phase_reached)
       = []
   \<and> watchdog_toasts (run [Elapse 10000, Receive BattleStarted, Elapse 20000] report_phase_reached)
       = [T_FetchingResults, T_RefreshManually]
   \<and> watchdog_toasts
       (run ([Elapse 10000, Receive BattleStarted, Elapse 19999]
             @ Receive (AnalysisComplete None) # [Elapse 100000]) report_phase_reached)
       = []"
proof -
  have q1: "list_all quiet_event [Elapse 10000, Receive BattleStarted, Elapse 19999]"
    and e1: "elapsed [Elapse 10000, Receive BattleStarted, Elapse 19999] < 30000"
    and q2: "list_all quiet_event [Elapse 10000, Receive BattleStarted, Elapse 20000]"
    and e2: "30000 \<le> elapsed [Elapse 10000, Receive BattleStarted, Elapse 20000]"
    and n: "list_all no_rearm [Elapse 100000]"
    by (simp_all add: elapsed_def)
  have w0: "watchdog_toasts report_phase_reached = []"
    by (simp add: report_phase_reached_def after_report_phase_def no_random_def
        watchdog_toasts_def handler_defs data_defs timer_defs)
  show ?thesis
    using C5_report_watchdog [of "[User (TypeCode (js ''2330'')), Socket SocketOpen, User SubmitForm,
          Elapse 100, Receive AnalysisStarted]" no_random "[]"
          "[Elapse 10000, Receive BattleStarted, Elapse 19999]" "[Elapse 100000]" None]
      C5_report_watchdog [of "[User (TypeCode (js ''2330'')), Socket SocketOpen, User SubmitForm,
          Elapse 100, Receive AnalysisStarted]" no_random "[]"
          "[Elapse 10000, Receive BattleStarted, Elapse 20000]" "[]" None]
      q1 e1 q2 e2 n w0
    unfolding report_phase_reached_def[symmetric]
    by simp
qed

section \<open>The two-signal barrier\<close>

text \<open>
  \<open>showAnalysisResults\<close> does nothing once the results are marked displayed, and after
  every sequence of events the results are marked displayed only if both completion
  flags are set.
\<close>

lemma showAnalysisResults_blocked: "resultsDisplayed s \<Longrightarrow> showAnalysisResults s = s"
  by (simp add: showAnalysisResults_def)

lemma bo_showAnalysisResults:
  "analysisCompleted s \<Longrightarrow> isBattleComplete s \<Longrightarrow> barrier_ok (showAnalysisResults s)"
  by (simp add: barrier_ok_def showAnalysisResults_def prim_defs)

lemma bo_handleBattleResults: "barrier_ok s \<Longrightarrow> barrier_ok (handleBattleResults fd vc s)"
  by (simp add: barrier_ok_def handleBattleResults_def showAnalysisResults_def prim_defs)

lemma bo_handleAnalysisComplete: "barrier_ok s \<Longrightarrow> barrier_ok (handleAnalysisComplete r s)"
  by (simp add: barrier_ok_def handleAnalysisComplete_def showAnalysisResults_def
      enableAnalysisButton_def clearTimeout_def prim_defs split: option.splits)

lemma bo_handleWebSocketMessage:
  assumes "barrier_ok s"
  shows "barrier_ok (handleWebSocketMessage m s)"
  using assms
proof (cases m)
  case (BattleResults fd vc)
  then show ?thesis using bo_handleBattleResults[OF assms] by simp
next
  case (AnalysisComplete r)
  then show ?thesis using bo_handleAnalysisComplete[OF assms] by simp
qed (simp_all add: barrier_ok_def handleValidationResult_def handleAnalysisStarted_def
      handlePhaseStarted_def handlePhaseCompleted_def handleAgentProgress_def
      updateProgressBar_def handleBattleStarted_def enableAnalysisButton_def
      showValidationSuccess_def showValidationError_def clearTimeout_def prim_defs
      split: option.splits)

lemma bo_from_clear: "barrier_flags_clear s \<Longrightarrow> barrier_ok s"
  by (simp add: barrier_flags_clear_def barrier_ok_def)

lemma bo_startAnalysis:
  assumes "barrier_ok s"
  shows "barrier_ok (startAnalysis s)"
proof (cases "isValidFormat (trim (stockCode_value s))")
  case True
  from startAnalysis_clears(1)[OF True] show ?thesis by (rule bo_from_clear)
next
  case False
  from startAnalysis_blocked[OF False] assms show ?thesis
    by (simp add: barrier_ok_def showValidationError_def)
qed

lemma bo_user_event:
  assumes "barrier_ok s"
  shows "barrier_ok (user_event a s)"
  using assms
proof (cases a)
  case SubmitForm
  then show ?thesis using bo_startAnalysis[OF assms] by simp
next
  case ClickRetry
  have "barrier_ok (showToast T_Retrying s)"
    using assms by (simp add: barrier_ok_def showToast_def)
  from bo_startAnalysis[OF this] show ?thesis
    using ClickRetry assms by (simp add: retryAnalysis_def split: option.splits)
qed (simp_all add: barrier_ok_def validateInput_def validateStockCode_def
      useMockValidation_def cancelAnalysis_def clearValidationError_def
      showValidationError_def showValidationSuccess_def enableAnalysisButton_def prim_defs)

lemma bo_socket_handler: "barrier_ok s \<Longrightarrow> barrier_ok (socket_handler e s)"
  by (cases e) (simp_all add: barrier_ok_def showToast_def)

lemma bo_processNextAgent: "barrier_ok (processNextAgent i s) = barrier_ok s"
  by (simp add: barrier_ok_def processNextAgent_def prim_defs split: option.splits)

lemma bo_run_cb:
  assumes "barrier_ok s"
  shows "barrier_ok (run_cb c s)"
  using assms
proof (cases c)
  case (SimAgentDone g a i)
  show ?thesis
    using assms unfolding SimAgentDone run_cb.simps simAgentDone_callback_def Let_def
      bo_processNextAgent
    by (simp add: barrier_ok_def prim_defs split: option.splits)
next
  case SimFinish
  then show ?thesis by (simp add: simFinish_callback_def bo_showAnalysisResults)
qed (simp_all add: barrier_ok_def tryLoadLatestReport_def enableAnalysisButton_def
      mockValidation_callback_def showValidationSuccess_def showValidationError_def
      sendStartAnalysis_callback_def simulateBattlePhase_def simReport_callback_def
      showResultCard_callback_def loadRealResults_def loadMockResults_def
      displayBattleResults_def prim_defs split: option.splits readyState.splits)

lemma bo_step:
  assumes "barrier_ok s"
  shows "barrier_ok (step e s)"
  using assms
proof (cases e)
  case (Elapse d)
  have "barrier_ok (run_until (now s + d) s)"
  proof (rule run_until_invariant[where P = barrier_ok, OF assms])
    fix t :: timer and u assume "barrier_ok u"
    then have "barrier_ok (removed t u)" by (simp add: barrier_ok_def removed_def)
    then show "barrier_ok (fire t u)" unfolding fire_removed by (rule bo_run_cb)
  next
    fix u T assume "barrier_ok u"
    then show "barrier_ok (u\<lparr>now := T\<rparr>)" by (simp add: barrier_ok_def)
  qed
  then show ?thesis using Elapse by simp
qed (simp_all add: bo_handleWebSocketMessage bo_user_event bo_socket_handler)

lemma bo_run: "barrier_ok s \<Longrightarrow> barrier_ok (run evs s)"
  by (induction evs arbitrary: s) (simp_all add: bo_step)

lemma display_only_after_both:
  "resultsDisplayed (run evs (init rnd)) \<Longrightarrow>
   analysisCompleted (run evs (init rnd)) \<and> isBattleComplete (run evs (init rnd))"
proof -
  have "barrier_ok (init rnd)" by (simp add: barrier_ok_def init_def)
  from bo_run[OF this, of evs] show "resultsDisplayed (run evs (init rnd)) \<Longrightarrow>
   analysisCompleted (run evs (init rnd)) \<and> isBattleComplete (run evs (init rnd))"
    by (simp add: barrier_ok_def)
qed

section \<open>The display is triggered at most once in a run\<close>

text \<open>
  Every event that does not start a run triggers a display of the results exactly if it
  sets \<open>resultsDisplayed\<close>; so from a state in which the results are not marked
  displayed, a run triggers the display at most once.
\<close>

lemma tick_refl: "tick s s"
  by (simp add: tick_def)

lemma tick_trans: "tick s s' \<Longrightarrow> tick s' s'' \<Longrightarrow> tick s s''"
  by (simp add: tick_def)

lemmas tick_defs = tick_def displays_def

lemma tick_showAnalysisResults: "tick s (showAnalysisResults s)"
  by (simp add: tick_defs showAnalysisResults_def prim_defs)

lemma tick_handleBattleResults: "tick s (handleBattleResults fd vc s)"
  by (simp add: tick_defs handleBattleResults_def showAnalysisResults_def prim_defs)

lemma filter_handle:
  assumes "list_all (\<lambda>t. tid t = h \<longrightarrow> cb t = ReportWatchdog) ts"
  shows "filter (\<lambda>t. cb t = ShowResultCard) (filter (\<lambda>t. tid t \<noteq> h) ts)
           = filter (\<lambda>t. cb t = ShowResultCard) ts"
  using assms by (induction ts) auto

lemma tick_clear:
  assumes "handle_ok s"
  shows "tick s (case reportCompleteTimeout s of Some h \<Rightarrow> clearTimeout h s | None \<Rightarrow> s)"
proof (cases "reportCompleteTimeout s")
  case None
  then show ?thesis by (simp add: tick_refl)
next
  case (Some h)
  with assms have "list_all (\<lambda>t. tid t = h \<longrightarrow> cb t = ReportWatchdog) (timers s)"
    by (simp add: handle_ok_def)
  from filter_handle[OF this] Some show ?thesis
    by (simp add: tick_defs clearTimeout_def)
qed

lemma tick_handleAnalysisComplete:
  assumes "handle_ok s"
  shows "tick s (handleAnalysisComplete r s)"
proof -
  define s0 where "s0 = (case reportCompleteTimeout s of Some h \<Rightarrow> clearTimeout h s | None \<Rightarrow> s)"
  define s1 where "s1 = s0\<lparr>reportCompleteTimeout := None\<rparr>"
  have a: "tick s s0" unfolding s0_def by (rule tick_clear[OF assms])
  have b: "tick s0 s1" by (simp add: s1_def tick_defs)
  have c: "tick s1 (handleAnalysisComplete r s)"
    unfolding s1_def s0_def
    by (simp add: tick_defs handleAnalysisComplete_def showAnalysisResults_def
        enableAnalysisButton_def clearTimeout_def prim_defs split: option.splits)
  from tick_trans[OF tick_trans[OF a b] c] show ?thesis .
qed

lemma tick_handlePhaseCompleted:
  assumes "handle_ok s"
  shows "tick s (handlePhaseCompleted ph m s)"
proof (cases "ph = js ''report''")
  case False
  then show ?thesis by (simp add: tick_defs handlePhaseCompleted_def prim_defs)
next
  case True
  define s1 where "s1 = showToast (T_PhaseCompleted ph m) s"
  define s2 where "s2 = (case reportCompleteTimeout s1 of Some h \<Rightarrow> clearTimeout h s1 | None \<Rightarrow> s1)"
  have a: "tick s s1" by (simp add: s1_def tick_defs showToast_def)
  have "handle_ok s1"
    using assms by (simp add: s1_def handle_ok_def showToast_def split: option.splits)
  then have b: "tick s1 s2" unfolding s2_def by (rule tick_clear)
  have c: "tick s2 (handlePhaseCompleted ph m s)"
    using True unfolding s2_def s1_def
    by (simp add: tick_defs handlePhaseCompleted_def clearTimeout_def prim_defs
        split: option.splits)
  from tick_trans[OF tick_trans[OF a b] c] show ?thesis .
qed

lemma tick_handleWebSocketMessage:
  assumes "handle_ok s"
  shows "tick s (handleWebSocketMessage m s)"
proof (cases m)
  case (PhaseCompleted ph t)
  then show ?thesis using tick_handlePhaseCompleted[OF assms] by simp
next
  case (AnalysisComplete r)
  then show ?thesis using tick_handleAnalysisComplete[OF assms] by simp
next
  case (BattleResults fd vc)
  then show ?thesis using tick_handleBattleResults by simp
next
  case (AgentProgress a st t)
  then show ?thesis
    by (simp add: tick_defs handleAgentProgress_def updateProgressBar_def prim_defs
        split: option.splits)
next
  case (ValidationResult v i t)
  then show ?thesis
    by (simp add: tick_defs handleValidationResult_def showValidationSuccess_def
        showValidationError_def prim_defs split: option.splits)
qed (simp_all add: tick_defs handleAnalysisStarted_def handlePhaseStarted_def
      handleBattleStarted_def enableAnalysisButton_def prim_defs)

lemma tick_user_event:
  assumes "no_start (User a)"
  shows "tick s (user_event a s)"
  using assms
  by (cases a)
     (simp_all add: tick_defs validateInput_def validateStockCode_def useMockValidation_def
      cancelAnalysis_def clearValidationError_def showValidationError_def
      showValidationSuccess_def enableAnalysisButton_def prim_defs)

lemma tick_socket_handler: "tick s (socket_handler e s)"
  by (cases e) (simp_all add: tick_defs showToast_def)

lemma tick_processNextAgent: "tick s (processNextAgent i s)"
  by (simp add: tick_defs processNextAgent_def prim_defs split: option.splits)

lemma tick_run_cb:
  assumes "c \<noteq> ShowResultCard"
  shows "tick s (run_cb c s)"
proof (cases c)
  case ShowResultCard
  with assms show ?thesis by simp
next
  case (SimAgentDone g a i)
  let ?s1 = "if g = cardGen s then
               (case map_of (cards s) a of
                  Some agentCard \<Rightarrow>
                    s\<lparr>cards := set_card a
                         (agentCard\<lparr>active := False, completed := True, status_text := St_Done\<rparr>)
                         (cards s)\<rparr>
                | None \<Rightarrow> s)
             else s"
  let ?s2 = "setProgress (real (i + 1) / real (length sim_agents) * 70) None ?s1"
  have "tick s ?s2" by (simp add: tick_defs prim_defs split: option.splits)
  from tick_trans[OF this tick_processNextAgent] show ?thesis
    using SimAgentDone by (simp add: simAgentDone_callback_def Let_def)
next
  case SimFinish
  have "tick s (s\<lparr>isBattleComplete := True, analysisCompleted := True\<rparr>)"
    by (simp add: tick_defs)
  from tick_trans[OF this tick_showAnalysisResults] show ?thesis
    using SimFinish by (simp add: simFinish_callback_def)
qed (simp_all add: tick_defs tryLoadLatestReport_def enableAnalysisButton_def
      mockValidation_callback_def showValidationSuccess_def showValidationError_def
      sendStartAnalysis_callback_def simulateBattlePhase_def simReport_callback_def
      prim_defs split: option.splits readyState.splits)

lemma showResultCard_counts:
  "displays (run_cb ShowResultCard s) = Suc (displays s)"
  "resultsDisplayed (run_cb ShowResultCard s) = resultsDisplayed s"
  by (simp_all add: displays_def showResultCard_callback_def loadRealResults_def
      loadMockResults_def displayBattleResults_def prim_defs split: option.splits)

lemma length_filter_removed:
  assumes "distinct (map tid ts)" "t \<in> set ts"
  shows "length (filter P (filter (\<lambda>u. tid u \<noteq> tid t) ts)) + of_bool (P t) = length (filter P ts)"
  using assms
proof (induction ts)
  case Nil
  then show ?case by simp
next
  case (Cons x xs)
  show ?case
  proof (cases "x = t")
    case True
    with Cons.prems have "tid t \<notin> tid ` set xs" by simp
    then have "\<forall>u\<in>set xs. tid u \<noteq> tid t" by (metis imageI)
    then have "filter (\<lambda>u. tid u \<noteq> tid t) xs = xs" by (simp add: filter_id_conv)
    with True show ?thesis by simp
  next
    case False
    with Cons.prems have m: "t \<in> set xs" and d: "distinct (map tid xs)" by auto
    from m Cons.prems have "tid x \<noteq> tid t" by auto
    with Cons.IH[OF d m] show ?thesis by simp
  qed
qed

lemma tick_fire:
  assumes "timers_ok s" "t \<in> set (timers s)"
  shows "tick s (fire t s)"
proof -
  have d: "distinct (map tid (timers s))" using assms(1) by (simp add: timers_ok_def)
  have rm: "displays (removed t s) + of_bool (cb t = ShowResultCard) = displays s"
    using length_filter_removed[OF d assms(2), of "\<lambda>t. cb t = ShowResultCard"]
    by (simp add: displays_def removed_def)
  have flag: "resultsDisplayed (removed t s) = resultsDisplayed s" by (simp add: removed_def)
  show ?thesis
  proof (cases "cb t = ShowResultCard")
    case True
    with rm flag showResultCard_counts[of "removed t s"] show ?thesis
      by (simp add: tick_def fire_removed)
  next
    case False
    from tick_run_cb[OF False, of "removed t s"] rm flag False show ?thesis
      by (simp add: tick_def fire_removed)
  qed
qed

lemma handle_ok_quiet:
  assumes "quiet_step s s'" "timers_ok s" "handle_ok s"
  shows "handle_ok s'"
proof (cases "reportCompleteTimeout s")
  case None
  with quiet_keeps(4)[OF assms(1)] show ?thesis by (simp add: handle_ok_def)
next
  case (Some h)
  with assms(3) have h: "h < next_tid s"
    and old: "list_all (\<lambda>t. tid t = h \<longrightarrow> cb t = ReportWatchdog) (timers s)"
    by (simp_all add: handle_ok_def)
  have n: "list_all (\<lambda>t. cb t \<noteq> ReportWatchdog \<and> next_tid s \<le> tid t \<and> tid t < next_tid s')
             (new_timers s s')"
    and le: "next_tid s \<le> next_tid s'"
    using assms(1) unfolding quiet_step_def by simp_all
  from n h have new: "list_all (\<lambda>t. tid t = h \<longrightarrow> cb t = ReportWatchdog) (new_timers s s')"
    by (auto simp: list_all_iff)
  from quiet_keeps(4)[OF assms(1)] Some h le old new show ?thesis
    by (simp add: handle_ok_def quiet_decompose(1)[OF assms(1)])
qed

lemma handle_ok_removed: "handle_ok s \<Longrightarrow> handle_ok (removed t s)"
  by (auto simp: handle_ok_def removed_def list_all_iff split: option.splits)

lemma handle_ok_fire:
  assumes "timers_ok s" "handle_ok s"
  shows "handle_ok (fire t s)"
proof (cases "cb t = ReportWatchdog")
  case False
  from handle_ok_quiet[OF quiet_run_cb[OF False] timers_ok_removed[OF assms(1)]
      handle_ok_removed[OF assms(2)]]
  show ?thesis by (simp add: fire_removed)
next
  case True
  from handle_ok_removed[OF assms(2), of t] show ?thesis
    unfolding fire_removed True
    by (auto simp: handle_ok_def tryLoadLatestReport_def showToast_def setTimeout_def
        list_all_iff split: option.splits)
qed

lemma timers_ok_fire:
  assumes "timers_ok s" "t \<in> set (timers s)"
  shows "timers_ok (fire t s)"
proof -
  from timers_ok_cases[OF assms(1)] show ?thesis
  proof
    assume "watchdog_pending s = []"
    with assms(1) have "disarmed (watchdog_toasts s) s" by (simp add: disarmed_def)
    from fire_disarmed[OF this assms(2)] show ?thesis by (simp add: disarmed_def)
  next
    assume "\<exists>w. watchdog_pending s = [w]"
    then obtain w where "watchdog_pending s = [w]" by blast
    with assms(1) have a: "armed (due w) (watchdog_toasts s) s" by (simp add: armed_def)
    show ?thesis
    proof (cases "cb t = ReportWatchdog")
      case True
      from fire_watchdog[OF a assms(2) True] show ?thesis by (simp add: disarmed_def)
    next
      case False
      from fire_other_armed[OF a assms(2) False] show ?thesis by (simp add: armed_def)
    qed
  qed
qed

lemma tick_run_until:
  "timers_ok s \<Longrightarrow> handle_ok s \<Longrightarrow>
   tick s (run_until T s) \<and> handle_ok (run_until T s)"
proof (induction T s rule: run_until.induct)
  case (1 target s)
  show ?case
  proof (cases "next_due target s")
    case None
    then show ?thesis using 1(3)
      by (simp add: run_until.simps[of target s] tick_defs handle_ok_def split: option.splits)
  next
    case (Some t)
    from next_due_Some[OF Some] have t: "t \<in> set (timers s)" by simp
    from 1(1)[OF Some timers_ok_fire[OF 1(2) t] handle_ok_fire[OF 1(2,3)]]
    have "tick (fire t s) (run_until target (fire t s))"
      and "handle_ok (run_until target (fire t s))" by simp_all
    with tick_fire[OF 1(2) t] Some show ?thesis
      by (simp add: run_until.simps[of target s] tick_trans)
  qed
qed

lemma handle_ok_step:
  assumes "timers_ok s" "handle_ok s"
  shows "handle_ok (step e s)"
proof (cases "quiet_event e")
  case True
  show ?thesis
  proof (cases "\<exists>d. e = Elapse d")
    case True
    then show ?thesis using tick_run_until[OF assms] by auto
  next
    case False
    with quiet_event_step[OF \<open>quiet_event e\<close>] have "quiet_step s (step e s)" by blast
    from handle_ok_quiet[OF this assms] show ?thesis .
  qed
next
  case False
  then consider (complete) r where "e = Receive (AnalysisComplete r)"
    | (report) m where "e = Receive (PhaseCompleted (js ''report'') m)"
    by (cases e rule: quiet_event.cases) auto
  then show ?thesis
  proof cases
    case complete
    have "reportCompleteTimeout (handleAnalysisComplete r s) = None"
      by (simp add: handleAnalysisComplete_def showAnalysisResults_def enableAnalysisButton_def
          clearTimeout_def prim_defs split: option.splits)
    then show ?thesis using complete by (simp add: handle_ok_def)
  next
    case report
    from arm_watchdog[OF assms(1), of m]
    obtain w where w: "watchdog_pending (handlePhaseCompleted (js ''report'') m s) = [w]"
      and h: "reportCompleteTimeout (handlePhaseCompleted (js ''report'') m s) = Some (tid w)"
      and ok: "timers_ok (handlePhaseCompleted (js ''report'') m s)"
      by (auto simp: armed_def)
    define a where "a = handlePhaseCompleted (js ''report'') m s"
    have "w \<in> set (watchdog_pending a)" using w by (simp add: a_def)
    then have wm: "w \<in> set (timers a)" and wc: "cb w = ReportWatchdog"
      by (simp_all add: watchdog_pending_def)
    have inj: "inj_on tid (set (timers a))" and lt: "\<forall>x\<in>set (timers a). tid x < next_tid a"
      using ok unfolding a_def[symmetric] timers_ok_def list_all_iff
      by (simp_all add: distinct_map)
    have "\<forall>x\<in>set (timers a). tid x = tid w \<longrightarrow> cb x = ReportWatchdog"
      using inj wm wc by (auto dest: inj_onD)
    with lt wm h show ?thesis
      unfolding report step.simps handleWebSocketMessage.simps a_def[symmetric]
      by (simp add: handle_ok_def list_all_iff)
  qed
qed

lemma tick_step:
  assumes "no_start e" "timers_ok s" "handle_ok s"
  shows "tick s (step e s)"
proof (cases e)
  case (Receive m)
  then show ?thesis using tick_handleWebSocketMessage[OF assms(3)] by simp
next
  case (User a)
  then show ?thesis using tick_user_event[of a s] assms(1) by simp
next
  case (Socket x)
  then show ?thesis using tick_socket_handler by simp
next
  case (Elapse d)
  then show ?thesis using tick_run_until[OF assms(2,3)] by simp
qed

lemma tick_run:
  "list_all no_start evs \<Longrightarrow> timers_ok s \<Longrightarrow> handle_ok s \<Longrightarrow> tick s (run evs s)"
proof (induction evs arbitrary: s)
  case Nil
  then show ?case by (simp add: tick_refl)
next
  case (Cons e evs)
  from Cons.prems have e: "no_start e" and rest: "list_all no_start evs" by simp_all
  from Cons.IH[OF rest timers_ok_step[OF Cons.prems(2)] handle_ok_step[OF Cons.prems(2,3)]]
    tick_step[OF e Cons.prems(2,3)]
  show ?case by (simp add: tick_trans)
qed

lemma handle_ok_run: "timers_ok s \<Longrightarrow> handle_ok s \<Longrightarrow> handle_ok (run evs s)"
  by (induction evs arbitrary: s) (simp_all add: handle_ok_step timers_ok_step)

lemma display_at_most_once:
  assumes "list_all no_start evs" "\<not> resultsDisplayed (run evs0 (init rnd))"
  shows "displays (run (evs0 @ evs) (init rnd))
           = displays (run evs0 (init rnd)) + of_bool (resultsDisplayed (run (evs0 @ evs) (init rnd)))"
proof -
  have ok: "timers_ok (run evs0 (init rnd))" by (rule timers_ok_run[OF timers_ok_init])
  have "handle_ok (init rnd)" by (simp add: handle_ok_def init_def)
  from handle_ok_run[OF timers_ok_init this] have h: "handle_ok (run evs0 (init rnd))" .
  from tick_run[OF assms(1) ok h] assms(2) show ?thesis
    by (simp add: tick_def run_append)
qed

section \<open>The two arrival orders\<close>

text \<open>
  Claim C1, evaluated on the code. A run is under way on an open socket; the backend
  sends \<open>battle_results\<close> with the decision \<^verbatim>\<open>bearish\<close> and \<open>analysis_complete\<close> with results
  that hold the research and no \<open>battle\<close> entry. In both arrival orders the message
  processed second triggers the display, once, with both flags set, the bar at 100 and
  the result card shown a second later. The displayed state is not the same:
  when \<open>analysis_complete\<close> comes first, \<open>handleBattleResults\<close> adds the battle entry to
  the stored results and the result card shows the decision; when \<open>battle_results\<close> comes
  first, \<open>handleAnalysisComplete\<close> replaces the stored results, the battle entry is lost
  and the result card shows no decision.
\<close>

theorem C1_arrival_orders:
  "barrier_flags_clear run_under_way
   \<and> resultsDisplayed analysis_first \<and> resultsDisplayed battle_first
   \<and> resultCard_shown analysis_first \<and> resultCard_shown battle_first
   \<and> progressBar_width analysis_first = 100 \<and> progressBar_width battle_first = 100
   \<and> resultsLoaded analysis_first = Some RealResults
   \<and> resultsLoaded battle_first = Some RealResults
   \<and> analysisResults analysis_first
       = Some (research_only\<lparr>battle :=
                 Some \<lparr>final_decision = js ''bearish'', vote_count = bearish_votes\<rparr>\<rparr>)
   \<and> analysisResults battle_first = Some research_only
   \<and> battleResults_shown analysis_first
       = Some \<lparr>final_decision = js ''bearish'', vote_count = bearish_votes\<rparr>
   \<and> battleResults_shown battle_first = None
   \<and> displays run_under_way = 0 \<and> displays analysis_first = 1 \<and> displays battle_first = 1"
  by (simp add: analysis_first_def battle_first_def run_under_way_def online_run_def
      research_only_def bearish_votes_def no_random_def barrier_flags_clear_def
      displays_def handler_defs data_defs timer_defs)

end
